theory Spec2Isabelle
  imports Complex_Main "HOL-Library.Product_Lexorder" "HOL-Library.Sublist"
begin

section \<open>Strings as the source uses them\<close>

text \<open>
  A Python \<open>str\<close> is a sequence of code points. The development covers the code points
  below 256: a \<^typ>\<open>char\<close> stands for the code point with the same number, and
  \<open>length\<close> counts code points as Python's \<open>len\<close> does. On this range
  \<open>str.isspace\<close> holds for 9 to 13, 28 to 32, 133 and 160, and \<open>str.lower\<close> moves
  A to Z and the capital letters 192 to 222 (215, the multiplication sign, apart) up by 32.
\<close>

definition is_space :: "char \<Rightarrow> bool" where
  "is_space c =
     (let n = (of_char c :: nat)
      in (9 \<le> n \<and> n \<le> 13) \<or> (28 \<le> n \<and> n \<le> 32) \<or> n = 133 \<or> n = 160)"

definition lower_char :: "char \<Rightarrow> char" where
  "lower_char c =
     (let n = (of_char c :: nat)
      in if (65 \<le> n \<and> n \<le> 90) \<or> (192 \<le> n \<and> n \<le> 222 \<and> n \<noteq> 215)
         then char_of (n + 32) else c)"

definition str_lower :: "string \<Rightarrow> string" where
  "str_lower s = map lower_char s"

text \<open>\<open>s.strip()\<close>: white space is removed at both ends.\<close>

definition str_strip :: "string \<Rightarrow> string" where
  "str_strip s = rev (dropWhile is_space (rev (dropWhile is_space s)))"

text \<open>
  \<open>s.split()\<close> with no separator: the maximal runs of characters that are not white
  space, in order. The second argument holds the token being read, reversed.
\<close>

fun split_acc :: "string \<Rightarrow> string \<Rightarrow> string list" where
  "split_acc [] cur = (if cur = [] then [] else [rev cur])"
| "split_acc (c # cs) cur =
     (if is_space c
      then (if cur = [] then split_acc cs [] else rev cur # split_acc cs [])
      else split_acc cs (c # cur))"

definition str_split :: "string \<Rightarrow> string list" where
  "str_split s = split_acc s []"

text \<open>\<open>s.startswith(p)\<close> and the substring test \<open>p in s\<close>.\<close>

definition startswith :: "string \<Rightarrow> string \<Rightarrow> bool" where
  "startswith s p = (take (length p) s = p)"

fun contains :: "string \<Rightarrow> string \<Rightarrow> bool" where
  "contains [] p = (p = [])"
| "contains (c # cs) p = (startswith (c # cs) p \<or> contains cs p)"

section \<open>The directory and its name index\<close>

text \<open>
  A directory entry is the dictionary the manager loads: \<open>id\<close>, \<open>name\<close>, \<open>email\<close> and
  \<open>type\<close>. The code reads the name with \<open>user.get("name", "")\<close>, so the key may be
  missing (\<open>None\<close> here), and reads the id with \<open>user["id"]\<close>, so an entry has one.
\<close>

record user =
  user_id :: string
  name :: "string option"
  email :: string
  kind :: string

definition user_get_name :: "user \<Rightarrow> string" where
  "user_get_name u = (case name u of None \<Rightarrow> [] | Some n \<Rightarrow> n)"

text \<open>
  \<open>"".join([p[0].lower() for p in parts if p])\<close>: the lower-cased first characters of
  the tokens.
\<close>

definition initials_of :: "string list \<Rightarrow> string" where
  "initials_of parts = concat (map (\<lambda>p. [lower_char (hd p)]) (filter (\<lambda>p. p \<noteq> []) parts))"

text \<open>
  The body of the loop of \<open>_build_name_mapping\<close> for one entry: every assignment
  \<open>self.user_name_mapping[key] = user["id"]\<close> is an update of the map, in the order of
  the source. \<open>parts[1:-1]\<close> is \<open>butlast (tl parts)\<close>.
\<close>

definition register_user :: "(string \<rightharpoonup> string) \<Rightarrow> user \<Rightarrow> (string \<rightharpoonup> string)" where
  "register_user m u =
     (let nm = str_strip (user_get_name u) in
      if nm \<noteq> [] then
        let m1 = m(str_lower nm \<mapsto> user_id u);
            parts = str_split nm
        in if parts \<noteq> [] then
             let m2 = m1(str_lower (hd parts) \<mapsto> user_id u);
                 m3 = (if length parts > 1
                       then m2(str_lower (last parts) \<mapsto> user_id u) else m2);
                 m4 = fold (\<lambda>part acc. if part \<noteq> []
                                          then acc(str_lower part \<mapsto> user_id u) else acc)
                        (butlast (tl parts)) m3
             in if length parts \<ge> 2 then
                  let m5 = m4(str_lower (hd parts) @ '' '' @ str_lower (last parts)
                                \<mapsto> user_id u)
                  in m5(initials_of parts \<mapsto> user_id u)
                else m4
           else m1
      else m)"

text \<open>
  \<open>_build_name_mapping\<close>: nothing happens for an empty directory, otherwise the entries
  are registered in the order of the list.
\<close>

definition build_name_mapping ::
  "user list \<Rightarrow> (string \<rightharpoonup> string) \<Rightarrow> (string \<rightharpoonup> string)" where
  "build_name_mapping users m = (if users = [] then m else fold (\<lambda>u acc. register_user acc u) users m)"

text \<open>
  The manager after its constructor has read a directory: \<open>user_name_mapping\<close> starts
  as the empty dictionary and \<open>_build_name_mapping\<close> runs once on the loaded list.
\<close>

record manager =
  workspace_users :: "user list"
  user_name_mapping :: "string \<rightharpoonup> string"

definition load_manager :: "user list \<Rightarrow> manager" where
  "load_manager users =
     \<lparr>workspace_users = users, user_name_mapping = build_name_mapping users Map.empty\<rparr>"

section \<open>The similarity ratio of the standard library\<close>

text \<open>
  The scores use \<open>SequenceMatcher(None, a, b).ratio()\<close> of Python's \<open>difflib\<close>: no junk
  predicate, and \<open>autojunk\<close> left at its default. The functions below follow
  \<open>__chain_b\<close>, \<open>find_longest_match\<close>, \<open>get_matching_blocks\<close> and \<open>ratio\<close>. Indices are
  natural numbers; the two places where the source subtracts are written so that the
  subtraction cannot truncate. Scores are exact rationals embedded in the reals, where
  the source has floating-point numbers.
\<close>

text \<open>
  \<open>__chain_b\<close>: \<open>b2j\<close> maps a character of \<open>b\<close> to the increasing list of its positions.
  The set of junk stays empty. When \<open>b\<close> has 200 characters or more, the characters that
  occur more than \<open>n // 100 + 1\<close> times leave the dictionary.
\<close>

definition chain_b :: "string \<Rightarrow> (char \<rightharpoonup> nat list)" where
  "chain_b b =
     (let b2j = fold (\<lambda>(i, elt) m. m(elt \<mapsto> (case m elt of None \<Rightarrow> [] | Some idxs \<Rightarrow> idxs) @ [i]))
                  (enumerate 0 b) Map.empty;
          n = length b
      in if n \<ge> 200 then
           let ntest = n div 100 + 1
           in (\<lambda>elt. case b2j elt of None \<Rightarrow> None
                      | Some idxs \<Rightarrow> if length idxs > ntest then None else Some idxs)
         else b2j)"

type_synonym flm_state = "(nat \<rightharpoonup> nat) \<times> nat \<times> nat \<times> nat"

text \<open>
  The inner loop of \<open>find_longest_match\<close> over the positions \<open>j\<close> of \<open>a[i]\<close> in \<open>b\<close>:
  \<open>continue\<close> below \<open>blo\<close>, \<open>break\<close> from \<open>bhi\<close> on. \<open>j2len.get(j-1, 0)\<close> is 0 for
  \<open>j = 0\<close>, since no key is negative. \<open>i-k+1\<close> is \<open>i + 1 - k\<close>.
\<close>

fun flm_inner :: "(nat \<rightharpoonup> nat) \<Rightarrow> nat \<Rightarrow> nat \<Rightarrow> nat \<Rightarrow> nat list \<Rightarrow> flm_state \<Rightarrow> flm_state" where
  "flm_inner j2len i blo bhi [] st = st"
| "flm_inner j2len i blo bhi (j # js) (newj2len, besti, bestj, bestsize) =
     (if j < blo then flm_inner j2len i blo bhi js (newj2len, besti, bestj, bestsize)
      else if j \<ge> bhi then (newj2len, besti, bestj, bestsize)
      else
        let k = (if j = 0 then 0 else case j2len (j - 1) of None \<Rightarrow> 0 | Some v \<Rightarrow> v) + 1;
            newj2len' = newj2len(j \<mapsto> k)
        in if k > bestsize
           then flm_inner j2len i blo bhi js (newj2len', i + 1 - k, j + 1 - k, k)
           else flm_inner j2len i blo bhi js (newj2len', besti, bestj, bestsize))"

text \<open>The outer loop \<open>for i in range(alo, ahi)\<close>, given the list of its indices.\<close>

fun flm_outer :: "string \<Rightarrow> (char \<rightharpoonup> nat list) \<Rightarrow> nat \<Rightarrow> nat \<Rightarrow> nat list \<Rightarrow> flm_state \<Rightarrow> flm_state" where
  "flm_outer a b2j blo bhi [] st = st"
| "flm_outer a b2j blo bhi (i # is) (j2len, besti, bestj, bestsize) =
     flm_outer a b2j blo bhi is
       (flm_inner j2len i blo bhi (case b2j (a ! i) of None \<Rightarrow> [] | Some idxs \<Rightarrow> idxs)
          (Map.empty, besti, bestj, bestsize))"

text \<open>
  The two loops that extend the best block at its ends. The junk test in their guards is
  always passed, the set of junk being empty; for the same reason the two later loops
  of the source, which take in junk, never run and are left out.
\<close>

function extend_back :: "string \<Rightarrow> string \<Rightarrow> nat \<Rightarrow> nat \<Rightarrow> nat \<times> nat \<times> nat \<Rightarrow> nat \<times> nat \<times> nat" where
  "extend_back a b alo blo (besti, bestj, bestsize) =
     (if besti > alo \<and> bestj > blo \<and> a ! (besti - 1) = b ! (bestj - 1)
      then extend_back a b alo blo (besti - 1, bestj - 1, bestsize + 1)
      else (besti, bestj, bestsize))"
  by pat_completeness auto
termination
  by (relation "measure (\<lambda>(a, b, alo, blo, besti, bestj, bestsize). besti)") auto

function extend_fwd :: "string \<Rightarrow> string \<Rightarrow> nat \<Rightarrow> nat \<Rightarrow> nat \<times> nat \<times> nat \<Rightarrow> nat \<times> nat \<times> nat" where
  "extend_fwd a b ahi bhi (besti, bestj, bestsize) =
     (if besti + bestsize < ahi \<and> bestj + bestsize < bhi
         \<and> a ! (besti + bestsize) = b ! (bestj + bestsize)
      then extend_fwd a b ahi bhi (besti, bestj, bestsize + 1)
      else (besti, bestj, bestsize))"
  by pat_completeness auto
termination
  by (relation "measure (\<lambda>(a, b, ahi, bhi, besti, bestj, bestsize). ahi - (besti + bestsize))") auto

declare extend_back.simps [simp del] extend_fwd.simps [simp del]

definition find_longest_match ::
  "string \<Rightarrow> string \<Rightarrow> (char \<rightharpoonup> nat list) \<Rightarrow> nat \<Rightarrow> nat \<Rightarrow> nat \<Rightarrow> nat \<Rightarrow> nat \<times> nat \<times> nat" where
  "find_longest_match a b b2j alo ahi blo bhi =
     (case flm_outer a b2j blo bhi [alo..<ahi] (Map.empty, alo, blo, 0) of
        (j2len, besti, bestj, bestsize) \<Rightarrow>
          extend_fwd a b ahi bhi (extend_back a b alo blo (besti, bestj, bestsize)))"

subsection \<open>The block found lies in the region searched\<close>

text \<open>
  \<open>find_longest_match\<close> promises \<open>alo <= i <= i+k <= ahi\<close> and \<open>blo <= j <= j+k <= bhi\<close>.
  The loop over the queue of \<open>get_matching_blocks\<close> stops because of it, so it is
  proved first. During row \<open>i\<close> every entry of \<open>j2len\<close> is a length that fits between
  \<open>alo\<close> and the row, and between \<open>blo\<close> and its column.
\<close>

definition j2len_ok :: "nat \<Rightarrow> nat \<Rightarrow> nat \<Rightarrow> (nat \<rightharpoonup> nat) \<Rightarrow> bool" where
  "j2len_ok alo blo i m = (\<forall>j v. m j = Some v \<longrightarrow> v \<le> i - alo \<and> v \<le> j + 1 - blo \<and> blo \<le> j)"

definition blk_ok :: "nat \<Rightarrow> nat \<Rightarrow> nat \<Rightarrow> nat \<Rightarrow> nat \<times> nat \<times> nat \<Rightarrow> bool" where
  "blk_ok alo ahi blo bhi x =
     (case x of (i, j, k) \<Rightarrow>
        alo \<le> i \<and> blo \<le> j \<and> (if k = 0 then i = alo \<and> j = blo else i + k \<le> ahi \<and> j + k \<le> bhi))"

lemma flm_inner_ok:
  assumes "alo \<le> i" "j2len_ok alo blo i j2len"
  shows "j2len_ok alo blo (Suc i) newj2len \<Longrightarrow> blk_ok alo (Suc i) blo bhi best \<Longrightarrow>
     j2len_ok alo blo (Suc i) (fst (flm_inner j2len i blo bhi js (newj2len, best)))
     \<and> blk_ok alo (Suc i) blo bhi (snd (flm_inner j2len i blo bhi js (newj2len, best)))"
proof (induction js arbitrary: newj2len best)
  case Nil
  then show ?case by simp
next
  case (Cons j js)
  obtain besti bestj bestsize where best: "best = (besti, bestj, bestsize)"
    by (cases best) auto
  show ?case
  proof (cases "j < blo")
    case True
    with Cons best show ?thesis by simp
  next
    case lo: False
    show ?thesis
    proof (cases "j \<ge> bhi")
      case True
      with lo Cons best show ?thesis by simp
    next
      case hi: False
      define k where "k = (if j = 0 then 0 else case j2len (j - 1) of None \<Rightarrow> 0 | Some v \<Rightarrow> v) + 1"
      have k1: "k \<le> Suc i - alo" and k2: "k \<le> j + 1 - blo" and k0: "0 < k"
        using assms lo unfolding k_def j2len_ok_def
        by (auto split: option.splits) (fastforce+)
      have new: "j2len_ok alo blo (Suc i) (newj2len(j \<mapsto> k))"
        using Cons.prems(1) k1 k2 lo unfolding j2len_ok_def by auto
      have nb: "blk_ok alo (Suc i) blo bhi (i + 1 - k, j + 1 - k, k)"
        using k1 k2 k0 hi lo assms(1) unfolding blk_ok_def by auto
      have step: "flm_inner j2len i blo bhi (j # js) (newj2len, best) =
          (if k > bestsize then flm_inner j2len i blo bhi js (newj2len(j \<mapsto> k), i + 1 - k, j + 1 - k, k)
           else flm_inner j2len i blo bhi js (newj2len(j \<mapsto> k), best))"
        using lo hi unfolding best k_def by (simp add: Let_def)
      show ?thesis
      proof (cases "k > bestsize")
        case True
        show ?thesis using Cons.IH[OF new nb] by (simp only: step True if_True)
      next
        case False
        show ?thesis using Cons.IH[OF new Cons.prems(2)] by (simp only: step False if_False)
      qed
    qed
  qed
qed

lemma blk_ok_mono: "blk_ok alo i blo bhi x \<Longrightarrow> i \<le> i' \<Longrightarrow> blk_ok alo i' blo bhi x"
  unfolding blk_ok_def by auto

lemma flm_outer_ok:
  "alo \<le> i0 \<Longrightarrow> i0 \<le> ahi \<Longrightarrow> j2len_ok alo blo i0 j2len \<Longrightarrow> blk_ok alo i0 blo bhi best \<Longrightarrow>
   blk_ok alo ahi blo bhi (snd (flm_outer a b2j blo bhi [i0..<ahi] (j2len, best)))"
proof (induction "ahi - i0" arbitrary: i0 j2len best)
  case 0
  then show ?case by simp
next
  case (Suc n)
  then have lt: "i0 < ahi" by simp
  obtain besti bestj bestsize where best: "best = (besti, bestj, bestsize)"
    by (cases best) auto
  let ?r = "flm_inner j2len i0 blo bhi (case b2j (a ! i0) of None \<Rightarrow> [] | Some idxs \<Rightarrow> idxs)
          (Map.empty, best)"
  have e: "j2len_ok alo blo (Suc i0) Map.empty" by (simp add: j2len_ok_def)
  have b: "blk_ok alo (Suc i0) blo bhi best" by (rule blk_ok_mono[OF Suc.prems(4)]) simp
  from flm_inner_ok[OF Suc.prems(1) Suc.prems(3) e b]
  have r: "j2len_ok alo blo (Suc i0) (fst ?r)" "blk_ok alo (Suc i0) blo bhi (snd ?r)"
    by auto
  have "blk_ok alo ahi blo bhi (snd (flm_outer a b2j blo bhi [Suc i0..<ahi] (fst ?r, snd ?r)))"
  proof (rule Suc.hyps(1)[OF _ _ _ r(1) r(2)])
    show "n = ahi - Suc i0" using Suc.hyps(2) by simp
    show "alo \<le> Suc i0" using Suc.prems(1) by simp
    show "Suc i0 \<le> ahi" using lt by simp
  qed
  moreover have "[i0..<ahi] = i0 # [Suc i0..<ahi]" using lt by (rule upt_conv_Cons)
  ultimately show ?case unfolding best by (simp only: flm_outer.simps prod.collapse)
qed

lemma extend_back_ok:
  "blk_ok alo ahi blo bhi x \<Longrightarrow> blk_ok alo ahi blo bhi (extend_back a b alo blo x)"
proof (induction a b alo blo x rule: extend_back.induct)
  case (1 a b alo blo besti bestj bestsize)
  show ?case
  proof (cases "besti > alo \<and> bestj > blo \<and> a ! (besti - 1) = b ! (bestj - 1)")
    case True
    have "blk_ok alo ahi blo bhi (besti - 1, bestj - 1, bestsize + 1)"
      using "1.prems" True unfolding blk_ok_def by (auto split: if_splits)
    with "1.IH" True show ?thesis by (simp add: extend_back.simps[of a b alo blo besti bestj bestsize])
  next
    case False
    with "1.prems" show ?thesis by (auto simp: extend_back.simps[of a b alo blo besti bestj bestsize])
  qed
qed

lemma extend_fwd_ok:
  "blk_ok alo ahi blo bhi x \<Longrightarrow> blk_ok alo ahi blo bhi (extend_fwd a b ahi bhi x)"
proof (induction a b ahi bhi x rule: extend_fwd.induct)
  case (1 a b ahi bhi besti bestj bestsize)
  show ?case
  proof (cases "besti + bestsize < ahi \<and> bestj + bestsize < bhi
         \<and> a ! (besti + bestsize) = b ! (bestj + bestsize)")
    case True
    have "blk_ok alo ahi blo bhi (besti, bestj, bestsize + 1)"
      using "1.prems" True unfolding blk_ok_def by (auto split: if_splits)
    with "1.IH" True show ?thesis by (simp add: extend_fwd.simps[of a b ahi bhi besti bestj bestsize])
  next
    case False
    with "1.prems" show ?thesis by (auto simp: extend_fwd.simps[of a b ahi bhi besti bestj bestsize])
  qed
qed

lemma find_longest_match_ok:
  "blk_ok alo ahi blo bhi (find_longest_match a b b2j alo ahi blo bhi)"
proof -
  let ?r = "flm_outer a b2j blo bhi [alo..<ahi] (Map.empty, alo, blo, 0)"
  have "blk_ok alo ahi blo bhi (snd ?r)"
  proof (cases "alo \<le> ahi")
    case True
    show ?thesis
      by (rule flm_outer_ok[OF le_refl True]) (simp_all add: j2len_ok_def blk_ok_def)
  next
    case False
    then show ?thesis by (simp add: blk_ok_def)
  qed
  then have "blk_ok alo ahi blo bhi (extend_fwd a b ahi bhi (extend_back a b alo blo (snd ?r)))"
    by (rule extend_fwd_ok[OF extend_back_ok])
  then show ?thesis
    unfolding find_longest_match_def by (cases ?r) (simp only: snd_conv prod.case)
qed

subsection \<open>Matching blocks and the ratio\<close>

text \<open>
  One turn of the \<open>while queue\<close> loop of \<open>get_matching_blocks\<close> for the region popped:
  the regions it pushes and the block it appends.
\<close>

definition gmb_step ::
  "string \<Rightarrow> string \<Rightarrow> (char \<rightharpoonup> nat list) \<Rightarrow> nat \<times> nat \<times> nat \<times> nat
     \<Rightarrow> (nat \<times> nat \<times> nat \<times> nat) list \<times> (nat \<times> nat \<times> nat) list" where
  "gmb_step a b b2j r =
     (case r of (alo, ahi, blo, bhi) \<Rightarrow>
        (case find_longest_match a b b2j alo ahi blo bhi of (i, j, k) \<Rightarrow>
           if k \<noteq> 0 then
             ((if alo < i \<and> blo < j then [(alo, i, blo, j)] else [])
                @ (if i + k < ahi \<and> j + k < bhi then [(i + k, ahi, j + k, bhi)] else []),
              [(i, j, k)])
           else ([], [])))"

definition region_weight :: "nat \<times> nat \<times> nat \<times> nat \<Rightarrow> nat" where
  "region_weight r = (case r of (alo, ahi, blo, bhi) \<Rightarrow> 2 * (ahi - alo) + 1)"

lemma gmb_step_weight:
  "sum_list (map region_weight (fst (gmb_step a b b2j r))) < region_weight r"
proof -
  obtain alo ahi blo bhi where r: "r = (alo, ahi, blo, bhi)" by (cases r) auto
  obtain i j k where f: "find_longest_match a b b2j alo ahi blo bhi = (i, j, k)"
    by (cases "find_longest_match a b b2j alo ahi blo bhi") auto
  have "blk_ok alo ahi blo bhi (i, j, k)"
    using find_longest_match_ok[of alo ahi blo bhi a b b2j] f by simp
  then show ?thesis
    by (auto simp: r gmb_step_def region_weight_def blk_ok_def f split: if_splits)
qed

text \<open>
  The loop itself: \<open>queue.pop()\<close> takes the last region, the new regions are appended.
\<close>

function gmb_loop ::
  "string \<Rightarrow> string \<Rightarrow> (char \<rightharpoonup> nat list) \<Rightarrow> (nat \<times> nat \<times> nat \<times> nat) list
     \<Rightarrow> (nat \<times> nat \<times> nat) list \<Rightarrow> (nat \<times> nat \<times> nat) list" where
  "gmb_loop a b b2j queue matching_blocks =
     (if queue = [] then matching_blocks
      else gmb_loop a b b2j (butlast queue @ fst (gmb_step a b b2j (last queue)))
             (matching_blocks @ snd (gmb_step a b b2j (last queue))))"
  by pat_completeness auto
termination
proof (relation "measure (\<lambda>(a, b, b2j, queue, blocks). sum_list (map region_weight queue))")
  show "wf (measure (\<lambda>(a, b, b2j, queue, blocks). sum_list (map region_weight queue)))"
    by simp
next
  fix a b :: string and b2j :: "char \<rightharpoonup> nat list"
    and queue :: "(nat \<times> nat \<times> nat \<times> nat) list" and matching_blocks :: "(nat \<times> nat \<times> nat) list"
  assume ne: "queue \<noteq> []"
  have "sum_list (map region_weight queue)
          = sum_list (map region_weight (butlast queue)) + region_weight (last queue)"
    using ne by (induction queue) auto
  then show "((a, b, b2j, butlast queue @ fst (gmb_step a b b2j (last queue)),
               matching_blocks @ snd (gmb_step a b b2j (last queue))),
              (a, b, b2j, queue, matching_blocks))
            \<in> measure (\<lambda>(a, b, b2j, queue, blocks). sum_list (map region_weight queue))"
    using gmb_step_weight[of a b b2j "last queue"] by simp
qed

declare gmb_loop.simps [simp del]

text \<open>
  After the loop the blocks are sorted and adjacent blocks are collapsed into one; the
  dummy block \<open>(la, lb, 0)\<close> ends the list.
\<close>

fun collapse ::
  "(nat \<times> nat \<times> nat) list \<Rightarrow> nat \<times> nat \<times> nat \<Rightarrow> (nat \<times> nat \<times> nat) list
     \<Rightarrow> (nat \<times> nat \<times> nat) list" where
  "collapse [] (i1, j1, k1) non_adjacent =
     (if k1 \<noteq> 0 then non_adjacent @ [(i1, j1, k1)] else non_adjacent)"
| "collapse ((i2, j2, k2) # rest) (i1, j1, k1) non_adjacent =
     (if i1 + k1 = i2 \<and> j1 + k1 = j2 then collapse rest (i1, j1, k1 + k2) non_adjacent
      else collapse rest (i2, j2, k2)
             (if k1 \<noteq> 0 then non_adjacent @ [(i1, j1, k1)] else non_adjacent))"

definition get_matching_blocks :: "string \<Rightarrow> string \<Rightarrow> (nat \<times> nat \<times> nat) list" where
  "get_matching_blocks a b =
     (let la = length a; lb = length b;
          matching_blocks = sort (gmb_loop a b (chain_b b) [(0, la, 0, lb)] [])
      in collapse matching_blocks (0, 0, 0) [] @ [(la, lb, 0)])"

text \<open>\<open>ratio\<close> with \<open>_calculate_ratio\<close>: \<open>2.0 * matches / length\<close>, and 1.0 for two empty strings.\<close>

definition ratio :: "string \<Rightarrow> string \<Rightarrow> real" where
  "ratio a b =
     (let matches = sum_list (map (\<lambda>triple. snd (snd triple)) (get_matching_blocks a b));
          len = length a + length b
      in if len \<noteq> 0 then 2 * real matches / real len else 1)"

subsection \<open>The ratio lies between 0 and 1\<close>

text \<open>
  The blocks found are disjoint pieces of \<open>a\<close> and of \<open>b\<close>: each turn of the loop
  trades a region for a block and at most two smaller regions inside it. So the number
  of matches exceeds neither length, and the ratio is at most 1.
\<close>

definition blocks_size :: "(nat \<times> nat \<times> nat) list \<Rightarrow> nat" where
  "blocks_size bs = sum_list (map (\<lambda>triple. snd (snd triple)) bs)"

lemma blocks_size_simps [simp]:
  "blocks_size [] = 0" "blocks_size (x # bs) = snd (snd x) + blocks_size bs"
  "blocks_size (xs @ ys) = blocks_size xs + blocks_size ys"
  by (simp_all add: blocks_size_def)

lemma gmb_step_width_a:
  "sum_list (map (\<lambda>(alo, ahi, blo, bhi). ahi - alo) (fst (gmb_step a b b2j r)))
     + blocks_size (snd (gmb_step a b b2j r)) \<le> (case r of (alo, ahi, blo, bhi) \<Rightarrow> ahi - alo)"
proof -
  obtain alo ahi blo bhi where r: "r = (alo, ahi, blo, bhi)" by (cases r) auto
  obtain i j k where f: "find_longest_match a b b2j alo ahi blo bhi = (i, j, k)"
    by (cases "find_longest_match a b b2j alo ahi blo bhi") auto
  have "blk_ok alo ahi blo bhi (i, j, k)"
    using find_longest_match_ok[of alo ahi blo bhi a b b2j] f by simp
  then show ?thesis
    by (auto simp: r gmb_step_def blk_ok_def f split: if_splits)
qed

lemma gmb_step_width_b:
  "sum_list (map (\<lambda>(alo, ahi, blo, bhi). bhi - blo) (fst (gmb_step a b b2j r)))
     + blocks_size (snd (gmb_step a b b2j r)) \<le> (case r of (alo, ahi, blo, bhi) \<Rightarrow> bhi - blo)"
proof -
  obtain alo ahi blo bhi where r: "r = (alo, ahi, blo, bhi)" by (cases r) auto
  obtain i j k where f: "find_longest_match a b b2j alo ahi blo bhi = (i, j, k)"
    by (cases "find_longest_match a b b2j alo ahi blo bhi") auto
  have "blk_ok alo ahi blo bhi (i, j, k)"
    using find_longest_match_ok[of alo ahi blo bhi a b b2j] f by simp
  then show ?thesis
    by (auto simp: r gmb_step_def blk_ok_def f split: if_splits)
qed

lemma sum_list_butlast_last:
  "xs \<noteq> [] \<Longrightarrow> sum_list (map f xs) = sum_list (map f (butlast xs)) + (f (last xs) :: nat)"
  by (induction xs) auto

lemma gmb_loop_size:
  assumes step: "\<And>r. sum_list (map w (fst (gmb_step a b b2j r))) + blocks_size (snd (gmb_step a b b2j r)) \<le> w r"
  shows "blocks_size (gmb_loop a b b2j queue blocks) \<le> blocks_size blocks + sum_list (map w queue)"
  using step
proof (induction a b b2j queue blocks rule: gmb_loop.induct)
  case (1 a b b2j queue matching_blocks)
  show ?case
  proof (cases "queue = []")
    case True
    then show ?thesis by (simp add: gmb_loop.simps[of a b b2j "[]"])
  next
    case False
    have "blocks_size (gmb_loop a b b2j queue matching_blocks)
        = blocks_size (gmb_loop a b b2j (butlast queue @ fst (gmb_step a b b2j (last queue)))
             (matching_blocks @ snd (gmb_step a b b2j (last queue))))"
      using False by (simp add: gmb_loop.simps[of a b b2j queue])
    also have "\<dots> \<le> blocks_size (matching_blocks @ snd (gmb_step a b b2j (last queue)))
         + sum_list (map w (butlast queue @ fst (gmb_step a b b2j (last queue))))"
      using "1.IH"[OF False "1.prems"] .
    also have "\<dots> \<le> blocks_size matching_blocks + sum_list (map w queue)"
      using "1.prems"[of "last queue"] sum_list_butlast_last[OF False, of w] by simp
    finally show ?thesis .
  qed
qed

lemma collapse_size:
  "blocks_size (collapse bs x acc) = blocks_size bs + snd (snd x) + blocks_size acc"
  by (induction bs x acc rule: collapse.induct) auto

lemma blocks_size_insort: "blocks_size (insort x xs) = snd (snd x) + blocks_size xs"
  by (induction xs) simp_all

lemma blocks_size_sort: "blocks_size (sort xs) = blocks_size xs"
  by (induction xs) (simp_all add: blocks_size_insort)

lemma matches_le:
  "blocks_size (get_matching_blocks a b) \<le> length a"
  "blocks_size (get_matching_blocks a b) \<le> length b"
  using gmb_loop_size[of "\<lambda>(alo, ahi, blo, bhi). ahi - alo" a b "chain_b b" "[(0, length a, 0, length b)]" "[]", OF gmb_step_width_a]
    gmb_loop_size[of "\<lambda>(alo, ahi, blo, bhi). bhi - blo" a b "chain_b b" "[(0, length a, 0, length b)]" "[]", OF gmb_step_width_b]
  by (simp_all add: get_matching_blocks_def Let_def collapse_size blocks_size_sort)

lemma ratio_bounds: "0 \<le> ratio a b" "ratio a b \<le> 1"
proof -
  let ?m = "blocks_size (get_matching_blocks a b)"
  have r: "ratio a b = (if length a + length b \<noteq> 0 then 2 * real ?m / real (length a + length b) else 1)"
    by (simp add: ratio_def blocks_size_def Let_def)
  show "0 \<le> ratio a b" unfolding r by simp
  have "2 * ?m \<le> length a + length b" using matches_le[of a b] by simp
  then have "2 * real ?m \<le> real (length a + length b)"
    by (metis of_nat_le_iff of_nat_mult of_nat_numeral)
  then show "ratio a b \<le> 1" unfolding r by (simp add: divide_le_eq)
qed

section \<open>The ratio of a string with itself\<close>

text \<open>
  \<open>difflib\<close> documents that the ratio is 1 for identical sequences. It holds for the
  functions above, with or without popular characters: the longest match found in the
  first region is the whole string, so there is one block.
\<close>

lemma positions_absent: "c \<notin> set xs \<Longrightarrow> filter (\<lambda>j. xs ! j = c) [0..<length xs] = []"
  by (auto simp: filter_empty_conv)

lemma positions_prefix:
  "filter (\<lambda>j. (xs @ [x]) ! j = c) [0..<length xs] = filter (\<lambda>j. xs ! j = c) [0..<length xs]"
  by (rule filter_cong) (auto simp: nth_append)

lemma positions_fold:
  "fold (\<lambda>(i, elt) m. m(elt \<mapsto> (case m elt of None \<Rightarrow> [] | Some idxs \<Rightarrow> idxs) @ [i]))
      (enumerate 0 xs) Map.empty c
   = (if c \<in> set xs then Some (filter (\<lambda>j. xs ! j = c) [0..<length xs]) else None)"
proof (induction xs rule: rev_induct)
  case Nil
  then show ?case by simp
next
  case (snoc x xs)
  show ?case
  proof (cases "c = x")
    case True
    with snoc show ?thesis
      by (simp add: enumerate_append_eq positions_prefix positions_absent)
  next
    case False
    with snoc show ?thesis
      by (simp add: enumerate_append_eq positions_prefix)
  qed
qed

lemma chain_b_Some:
  "chain_b b c = Some idxs \<Longrightarrow> idxs = filter (\<lambda>j. b ! j = c) [0..<length b]"
  by (auto simp: chain_b_def Let_def positions_fold split: if_splits option.splits)

lemma chain_b_positions:
  assumes "chain_b b c = Some idxs"
  shows "sorted idxs" "distinct idxs" "set idxs = {j. j < length b \<and> b ! j = c}"
proof -
  note e = chain_b_Some[OF assms]
  show "sorted idxs" unfolding e by (rule sorted_wrt_filter) simp
  show "distinct idxs" unfolding e by simp
  show "set idxs = {j. j < length b \<and> b ! j = c}" unfolding e by auto
qed

text \<open>
  The length of the run of characters kept in \<open>b2j\<close> that ends at position \<open>i\<close> of \<open>a\<close>.
  Comparing \<open>a\<close> with itself, this is the value the inner loop computes on the
  diagonal, and no other cell of the row or of the column holds more.
\<close>

fun run_len :: "(char \<rightharpoonup> nat list) \<Rightarrow> string \<Rightarrow> nat \<Rightarrow> nat" where
  "run_len b2j a 0 = (if b2j (a ! 0) = None then 0 else 1)"
| "run_len b2j a (Suc i) = (if b2j (a ! Suc i) = None then 0 else run_len b2j a i + 1)"

lemma run_len_pos: "b2j (a ! i) \<noteq> None \<Longrightarrow> 0 < run_len b2j a i"
  by (cases i) auto

lemma run_len_step:
  "b2j (a ! i) \<noteq> None \<Longrightarrow> run_len b2j a i = (if i = 0 then 0 else run_len b2j a (i - 1)) + 1"
  by (cases i) auto

definition row_inv :: "string \<Rightarrow> (char \<rightharpoonup> nat list) \<Rightarrow> nat \<Rightarrow> (nat \<rightharpoonup> nat) \<Rightarrow> bool" where
  "row_inv a b2j i j2len =
     ((\<forall>j v. j2len j = Some v \<longrightarrow>
          0 < i \<and> b2j (a ! j) \<noteq> None \<and> v \<le> run_len b2j a (i - 1) \<and> v \<le> run_len b2j a j)
      \<and> (0 < i \<and> b2j (a ! (i - 1)) \<noteq> None \<longrightarrow> j2len (i - 1) = Some (run_len b2j a (i - 1))))"

definition best_inv :: "string \<Rightarrow> (char \<rightharpoonup> nat list) \<Rightarrow> nat \<Rightarrow> nat \<times> nat \<times> nat \<Rightarrow> bool" where
  "best_inv a b2j i best =
     (case best of (p, q, k) \<Rightarrow> p = q \<and> (\<forall>i' < i. run_len b2j a i' \<le> k))"

definition cell_inv ::
  "string \<Rightarrow> (char \<rightharpoonup> nat list) \<Rightarrow> nat \<Rightarrow> nat list \<Rightarrow> flm_state \<Rightarrow> bool" where
  "cell_inv a b2j i done st =
     (case st of (newj2len, best) \<Rightarrow>
        (\<forall>j v. newj2len j = Some v \<longrightarrow>
            j \<in> set done \<and> v \<le> run_len b2j a i \<and> v \<le> run_len b2j a j)
        \<and> (i \<in> set done \<longrightarrow> newj2len i = Some (run_len b2j a i))
        \<and> best_inv a b2j i best
        \<and> (i \<in> set done \<longrightarrow> run_len b2j a i \<le> snd (snd best)))"

lemma cell_step:
  assumes row: "row_inv a b2j i j2len"
    and nz: "b2j (a ! i) \<noteq> None"
    and srt: "sorted (done @ j # rest)" "distinct (done @ j # rest)"
    and mem: "\<forall>j' \<in> set (done @ j # rest). j' < n \<and> a ! j' = a ! i"
    and iin: "i \<in> set (done @ j # rest)"
    and inv: "cell_inv a b2j i done (newj2len, besti, bestj, bestsize)"
  shows "\<exists>st. flm_inner j2len i 0 n (j # rest) (newj2len, besti, bestj, bestsize)
              = flm_inner j2len i 0 n rest st
            \<and> cell_inv a b2j i (done @ [j]) st"
proof -
  define k where "k = (if j = 0 then 0 else case j2len (j - 1) of None \<Rightarrow> 0 | Some v \<Rightarrow> v) + 1"
  have jn: "j < n" and aj: "a ! j = a ! i" using mem by auto
  have nzj: "b2j (a ! j) \<noteq> None" using nz aj by simp
  have ri: "run_len b2j a i = (if i = 0 then 0 else run_len b2j a (i - 1)) + 1"
    using nz by (rule run_len_step)
  have rj: "run_len b2j a j = (if j = 0 then 0 else run_len b2j a (j - 1)) + 1"
    using nzj by (rule run_len_step)
  have prev: "(if j = 0 then 0 else case j2len (j - 1) of None \<Rightarrow> 0 | Some v \<Rightarrow> v)
      \<le> (if i = 0 then 0 else run_len b2j a (i - 1))
    \<and> (if j = 0 then 0 else case j2len (j - 1) of None \<Rightarrow> 0 | Some v \<Rightarrow> v)
      \<le> (if j = 0 then 0 else run_len b2j a (j - 1))"
    using row unfolding row_inv_def by (auto split: option.splits)
  have ki: "k \<le> run_len b2j a i" and kj: "k \<le> run_len b2j a j"
    using prev unfolding k_def ri rj by simp_all
  have kdiag: "k = run_len b2j a i" if "j = i"
  proof (cases "i = 0")
    case True
    with that show ?thesis unfolding k_def ri by simp
  next
    case False
    show ?thesis
    proof (cases "b2j (a ! (i - 1)) = None")
      case True
      have "j2len (i - 1) = None"
      proof (rule ccontr)
        assume "j2len (i - 1) \<noteq> None"
        then obtain v where "j2len (i - 1) = Some v" by auto
        with row have "b2j (a ! (i - 1)) \<noteq> None" unfolding row_inv_def by blast
        with True show False by simp
      qed
      moreover have "run_len b2j a (i - 1) = 0" using True by (cases "i - 1") auto
      ultimately show ?thesis using that False unfolding k_def ri by simp
    next
      case nz': False
      with row False have "j2len (i - 1) = Some (run_len b2j a (i - 1))"
        unfolding row_inv_def by simp
      with that False show ?thesis unfolding k_def ri by simp
    qed
  qed
  have jnot: "j \<notin> set done" using srt(2) by auto
  have best: "besti = bestj" "\<forall>i' < i. run_len b2j a i' \<le> bestsize"
    "i \<in> set done \<longrightarrow> run_len b2j a i \<le> bestsize"
    using inv unfolding cell_inv_def best_inv_def by auto
  have before: "i \<in> set done" if "i < j"
  proof -
    have "i \<noteq> j" using that by simp
    moreover have "i \<notin> set rest"
    proof
      assume "i \<in> set rest"
      with srt(1) have "j \<le> i" by (auto simp: sorted_append)
      with that show False by simp
    qed
    ultimately show ?thesis using iin by auto
  qed
  have nogain: "k \<le> bestsize" if "j \<noteq> i"
  proof (cases "j < i")
    case True
    with best(2) kj show ?thesis by (meson le_trans)
  next
    case False
    with that have "i < j" by simp
    from before[OF this] best(3) ki show ?thesis by (meson le_trans)
  qed
  let ?new = "newj2len(j \<mapsto> k)"
  have step: "flm_inner j2len i 0 n (j # rest) (newj2len, besti, bestj, bestsize) =
      (if k > bestsize then flm_inner j2len i 0 n rest (?new, i + 1 - k, j + 1 - k, k)
       else flm_inner j2len i 0 n rest (?new, besti, bestj, bestsize))"
    using jn unfolding k_def by (simp add: Let_def)
  have newmap: "(\<forall>j' v. ?new j' = Some v \<longrightarrow>
            j' \<in> set (done @ [j]) \<and> v \<le> run_len b2j a i \<and> v \<le> run_len b2j a j')
        \<and> (i \<in> set (done @ [j]) \<longrightarrow> ?new i = Some (run_len b2j a i))"
    using inv ki kj kdiag unfolding cell_inv_def by auto
  show ?thesis
  proof (cases "k > bestsize")
    case True
    with nogain have ji: "j = i" by (meson not_le)
    have "best_inv a b2j i (i + 1 - k, j + 1 - k, k)"
      using ji best(2) True unfolding best_inv_def by (auto intro: le_trans less_imp_le)
    moreover have "run_len b2j a i \<le> k" using kdiag[OF ji] by simp
    ultimately have "cell_inv a b2j i (done @ [j]) (?new, i + 1 - k, j + 1 - k, k)"
      using newmap unfolding cell_inv_def by simp
    with True step show ?thesis by auto
  next
    case False
    have "i \<in> set (done @ [j]) \<longrightarrow> run_len b2j a i \<le> bestsize"
      using best(3) kdiag False by auto
    moreover have "best_inv a b2j i (besti, bestj, bestsize)"
      using best unfolding best_inv_def by simp
    ultimately have "cell_inv a b2j i (done @ [j]) (?new, besti, bestj, bestsize)"
      using newmap unfolding cell_inv_def by simp
    with False step show ?thesis by auto
  qed
qed

lemma cells:
  assumes row: "row_inv a b2j i j2len"
    and nz: "b2j (a ! i) \<noteq> None"
  shows "sorted (done @ rest) \<Longrightarrow> distinct (done @ rest)
    \<Longrightarrow> \<forall>j' \<in> set (done @ rest). j' < n \<and> a ! j' = a ! i
    \<Longrightarrow> i \<in> set (done @ rest)
    \<Longrightarrow> cell_inv a b2j i done st
    \<Longrightarrow> cell_inv a b2j i (done @ rest) (flm_inner j2len i 0 n rest st)"
proof (induction rest arbitrary: "done" st)
  case Nil
  then show ?case by simp
next
  case (Cons j rest)
  obtain newj2len besti bestj bestsize where st: "st = (newj2len, besti, bestj, bestsize)"
    by (cases st) auto
  from cell_step[OF row nz Cons.prems(1,2,3,4) Cons.prems(5)[unfolded st]]
  obtain st' where s: "flm_inner j2len i 0 n (j # rest) st = flm_inner j2len i 0 n rest st'"
    "cell_inv a b2j i (done @ [j]) st'"
    unfolding st by blast
  have "cell_inv a b2j i ((done @ [j]) @ rest) (flm_inner j2len i 0 n rest st')"
    by (rule Cons.IH) (use Cons.prems s(2) in simp_all)
  then show ?case using s(1) by simp
qed

lemma run_len_zero: "b2j (a ! i) = None \<Longrightarrow> run_len b2j a i = 0"
  by (cases i) auto

lemma row_step:
  assumes pos: "\<forall>c idxs. b2j c = Some idxs \<longrightarrow>
                  sorted idxs \<and> distinct idxs \<and> set idxs = {j. j < n \<and> a ! j = c}"
    and i: "i < n" and row: "row_inv a b2j i j2len" and best: "best_inv a b2j i best"
  shows "row_inv a b2j (Suc i)
           (fst (flm_inner j2len i 0 n (case b2j (a ! i) of None \<Rightarrow> [] | Some idxs \<Rightarrow> idxs)
                   (Map.empty, best)))
       \<and> best_inv a b2j (Suc i)
           (snd (flm_inner j2len i 0 n (case b2j (a ! i) of None \<Rightarrow> [] | Some idxs \<Rightarrow> idxs)
                   (Map.empty, best)))"
proof -
  obtain p q k where b: "best = (p, q, k)" by (cases best) auto
  have bq: "p = q" and bk: "\<forall>i' < i. run_len b2j a i' \<le> k"
    using best unfolding b best_inv_def by simp_all
  show ?thesis
  proof (cases "b2j (a ! i)")
    case None
    have rz: "run_len b2j a i = 0" using None by (rule run_len_zero)
    have "run_len b2j a i' \<le> k" if "i' < Suc i" for i'
    proof (cases "i' = i")
      case True
      with rz show ?thesis by simp
    next
      case False
      with that have "i' < i" by simp
      with bk show ?thesis by simp
    qed
    then have "best_inv a b2j (Suc i) best" unfolding b best_inv_def using bq by simp
    moreover have "row_inv a b2j (Suc i) Map.empty" unfolding row_inv_def using None by simp
    ultimately show ?thesis using None by simp
  next
    case (Some idxs)
    let ?st = "flm_inner j2len i 0 n idxs (Map.empty, best)"
    have nz: "b2j (a ! i) \<noteq> None" using Some by simp
    from pos Some have "sorted idxs \<and> distinct idxs \<and> set idxs = {j. j < n \<and> a ! j = a ! i}"
      by blast
    then have p1: "sorted idxs" and p2: "distinct idxs"
      and p3: "set idxs = {j. j < n \<and> a ! j = a ! i}" by simp_all
    have iin: "i \<in> set idxs" unfolding p3 using i by simp
    have mem: "\<forall>j' \<in> set idxs. j' < n \<and> a ! j' = a ! i" unfolding p3 by simp
    have start: "cell_inv a b2j i [] (Map.empty, best)"
      using best by (simp add: cell_inv_def)
    have "cell_inv a b2j i ([] @ idxs) (flm_inner j2len i 0 n idxs (Map.empty, best))"
    proof (rule cells[OF row nz _ _ _ _ start])
      show "sorted ([] @ idxs)" using p1 by simp
      show "distinct ([] @ idxs)" using p2 by simp
      show "\<forall>j' \<in> set ([] @ idxs). j' < n \<and> a ! j' = a ! i" using mem by simp
      show "i \<in> set ([] @ idxs)" using iin by simp
    qed
    then have c: "cell_inv a b2j i idxs ?st" by simp
    obtain nj p' q' k' where st: "?st = (nj, p', q', k')" by (cases ?st) auto
    from c have f1: "\<forall>j v. nj j = Some v \<longrightarrow>
        j \<in> set idxs \<and> v \<le> run_len b2j a i \<and> v \<le> run_len b2j a j"
      and f2: "i \<in> set idxs \<longrightarrow> nj i = Some (run_len b2j a i)"
      and f3: "best_inv a b2j i (p', q', k')"
      and f4: "i \<in> set idxs \<longrightarrow> run_len b2j a i \<le> k'"
      unfolding st cell_inv_def by simp_all
    have "row_inv a b2j (Suc i) nj"
      unfolding row_inv_def
    proof (intro conjI allI impI)
      fix j v assume "nj j = Some v"
      with f1 have jv: "j \<in> set idxs" "v \<le> run_len b2j a i" "v \<le> run_len b2j a j" by blast+
      from jv(1) mem have "a ! j = a ! i" by blast
      with nz show "b2j (a ! j) \<noteq> None" by simp
      show "0 < Suc i" by simp
      show "v \<le> run_len b2j a (Suc i - 1)" using jv(2) by simp
      show "v \<le> run_len b2j a j" by (rule jv(3))
    next
      show "nj (Suc i - 1) = Some (run_len b2j a (Suc i - 1))" using f2 iin by simp
    qed
    moreover have "run_len b2j a i' \<le> k'" if "i' < Suc i" for i'
    proof (cases "i' = i")
      case True
      with f4 iin show ?thesis by simp
    next
      case False
      with that have "i' < i" by simp
      with f3 show ?thesis unfolding best_inv_def by simp
    qed
    then have "best_inv a b2j (Suc i) (p', q', k')"
      using f3 unfolding best_inv_def by simp
    ultimately show ?thesis using Some st by simp
  qed
qed

lemma rows:
  assumes pos: "\<forall>c idxs. b2j c = Some idxs \<longrightarrow>
                  sorted idxs \<and> distinct idxs \<and> set idxs = {j. j < n \<and> a ! j = c}"
  shows "i0 \<le> n \<Longrightarrow> row_inv a b2j i0 j2len \<Longrightarrow> best_inv a b2j i0 best \<Longrightarrow>
           best_inv a b2j n (snd (flm_outer a b2j 0 n [i0..<n] (j2len, best)))"
proof (induction "n - i0" arbitrary: i0 j2len best)
  case 0
  then show ?case by simp
next
  case (Suc m)
  then have lt: "i0 < n" by simp
  obtain besti bestj bestsize where b: "best = (besti, bestj, bestsize)"
    by (cases best) auto
  let ?r = "flm_inner j2len i0 0 n (case b2j (a ! i0) of None \<Rightarrow> [] | Some idxs \<Rightarrow> idxs)
              (Map.empty, best)"
  note rs = row_step[OF pos lt Suc.prems(2,3)]
  have r: "row_inv a b2j (Suc i0) (fst ?r)" "best_inv a b2j (Suc i0) (snd ?r)"
    by (rule rs[THEN conjunct1], rule rs[THEN conjunct2])
  have "best_inv a b2j n (snd (flm_outer a b2j 0 n [Suc i0..<n] (fst ?r, snd ?r)))"
  proof (rule Suc.hyps(1)[OF _ _ r])
    show "m = n - Suc i0" using Suc.hyps(2) by simp
    show "Suc i0 \<le> n" using lt by simp
  qed
  moreover have "[i0..<n] = i0 # [Suc i0..<n]" using lt by (rule upt_conv_Cons)
  ultimately show ?case unfolding b by (simp only: flm_outer.simps prod.collapse)
qed

lemma extend_back_same: "extend_back a a 0 0 (p, p, k) = (0, 0, k + p)"
proof (induction p arbitrary: k)
  case 0
  show ?case by (simp add: extend_back.simps[of a a 0 0 0 0 k])
next
  case (Suc p)
  have "extend_back a a 0 0 (Suc p, Suc p, k) = extend_back a a 0 0 (p, p, k + 1)"
    by (simp add: extend_back.simps[of a a 0 0 "Suc p" "Suc p" k])
  also have "\<dots> = (0, 0, k + 1 + p)" by (rule Suc.IH)
  finally show ?case by simp
qed

lemma extend_fwd_same: "k \<le> n \<Longrightarrow> extend_fwd a a n n (0, 0, k) = (0, 0, n)"
proof (induction "n - k" arbitrary: k)
  case 0
  then have "k = n" by simp
  then show ?case by (simp add: extend_fwd.simps[of a a n n 0 0 n])
next
  case (Suc m)
  from Suc.hyps(2) have "k < n" by simp
  then have "extend_fwd a a n n (0, 0, k) = extend_fwd a a n n (0, 0, k + 1)"
    by (simp add: extend_fwd.simps[of a a n n 0 0 k])
  moreover have "extend_fwd a a n n (0, 0, k + 1) = (0, 0, n)"
    by (rule Suc.hyps(1)) (use Suc.hyps(2) Suc.prems in simp_all)
  ultimately show ?case by simp
qed

lemma find_longest_match_same:
  "find_longest_match a a (chain_b a) 0 (length a) 0 (length a) = (0, 0, length a)"
proof -
  let ?n = "length a"
  let ?r = "flm_outer a (chain_b a) 0 ?n [0..<?n] (Map.empty, 0, 0, 0)"
  obtain j2len p q k where r: "?r = (j2len, p, q, k)" by (cases ?r) auto
  have pos: "\<forall>c idxs. chain_b a c = Some idxs \<longrightarrow>
                  sorted idxs \<and> distinct idxs \<and> set idxs = {j. j < ?n \<and> a ! j = c}"
    using chain_b_positions by blast
  have "best_inv a (chain_b a) ?n (snd ?r)"
    by (rule rows[OF pos]) (simp_all add: row_inv_def best_inv_def)
  then have pq: "p = q" unfolding r by (simp add: best_inv_def)
  have "blk_ok 0 ?n 0 ?n (snd ?r)"
    by (rule flm_outer_ok) (simp_all add: j2len_ok_def blk_ok_def)
  then have le: "k + q \<le> ?n" unfolding r pq by (auto simp: blk_ok_def split: if_splits)
  show ?thesis
    unfolding find_longest_match_def r pq using le
    by (simp add: extend_back_same extend_fwd_same)
qed

lemma get_matching_blocks_same:
  "get_matching_blocks a a
     = (if a = [] then [] else [(0, 0, length a)]) @ [(length a, length a, 0)]"
proof -
  let ?n = "length a"
  have step: "gmb_step a a (chain_b a) (0, ?n, 0, ?n)
      = (if a = [] then ([], []) else ([], [(0, 0, ?n)]))"
    by (simp add: gmb_step_def find_longest_match_same)
  have "gmb_loop a a (chain_b a) [(0, ?n, 0, ?n)] []
      = gmb_loop a a (chain_b a) [] (if a = [] then [] else [(0, 0, ?n)])"
    by (subst gmb_loop.simps) (simp add: step)
  also have "\<dots> = (if a = [] then [] else [(0, 0, ?n)])"
    by (subst gmb_loop.simps) simp
  finally show ?thesis by (simp add: get_matching_blocks_def Let_def)
qed

lemma ratio_same: "ratio a a = 1"
  by (simp add: ratio_def get_matching_blocks_same Let_def)

section \<open>The matcher\<close>

text \<open>\<open>max(scores) if scores else 0.0\<close>.\<close>

definition max_score :: "real list \<Rightarrow> real" where
  "max_score scores = (case scores of [] \<Rightarrow> 0 | s # ss \<Rightarrow> fold max ss s)"

text \<open>
  The scores of one entry in \<open>find_user_by_name\<close>, for the normalised query and the
  stripped name of the entry: the list \<open>scores\<close> grows by \<open>append\<close>, and the best one
  is taken. \<open>x in y\<close> is \<open>contains y x\<close>.
\<close>

definition fuzzy_score :: "string \<Rightarrow> string \<Rightarrow> real" where
  "fuzzy_score search_lower user_name =
     (let full_score = ratio search_lower (str_lower user_name);
          scores0 = [full_score];
          scores1 = (if contains (str_lower user_name) search_lower
                        \<or> contains search_lower (str_lower user_name)
                     then scores0 @ [0.8] else scores0);
          parts = str_split user_name;
          scores2 = (if parts \<noteq> [] \<and> search_lower = str_lower (hd parts)
                     then scores1 @ [0.95] else scores1);
          scores3 = (if length parts > 1 \<and> search_lower = str_lower (last parts)
                     then scores2 @ [0.9] else scores2);
          scores4 = fold (\<lambda>part sc. if search_lower = str_lower part then sc @ [0.85] else sc)
                      (butlast (tl parts)) scores3;
          initials = initials_of parts;
          scores5 = (if search_lower = initials then scores4 @ [0.9] else scores4)
      in max_score scores5)"

text \<open>
  The state of the loop is \<open>best_match\<close>, \<open>best_score\<close> and \<open>matches\<close>. An entry with an
  empty stripped name is skipped by \<open>continue\<close>.
\<close>

type_synonym fuzzy_state = "user option \<times> real \<times> (user \<times> real) list"

definition fuzzy_step :: "string \<Rightarrow> user \<Rightarrow> fuzzy_state \<Rightarrow> fuzzy_state" where
  "fuzzy_step search_lower u st =
     (case st of (best_match, best_score, matches) \<Rightarrow>
        let user_name = str_strip (user_get_name u) in
        if user_name = [] then st
        else
          let score = fuzzy_score search_lower user_name in
          if score \<ge> 0.5 then
            (if score > best_score then (Some u, score, matches @ [(u, score)])
             else (best_match, best_score, matches @ [(u, score)]))
          else st)"

text \<open>
  \<open>find_user_by_name\<close>. The first test returns \<open>None\<close> for the empty query and for an
  empty directory. An exact hit looks the id up in the directory with \<open>next(...)\<close>, the
  first entry that has it. \<open>None\<close> is the result for no match.
\<close>

definition find_user_by_name :: "manager \<Rightarrow> string \<Rightarrow> user option" where
  "find_user_by_name mgr search_name =
     (if search_name = [] \<or> workspace_users mgr = [] then None
      else
        let search_lower = str_lower (str_strip search_name) in
        case user_name_mapping mgr search_lower of
          Some uid \<Rightarrow> find (\<lambda>u. user_id u = uid) (workspace_users mgr)
        | None \<Rightarrow>
            (case fold (fuzzy_step search_lower) (workspace_users mgr) (None, 0, []) of
               (best_match, best_score, matches) \<Rightarrow>
                 if best_match \<noteq> None \<and> best_score \<ge> 0.6 then best_match else None))"

definition get_user_id_by_name :: "manager \<Rightarrow> string \<Rightarrow> string option" where
  "get_user_id_by_name mgr nm =
     (case find_user_by_name mgr nm of Some u \<Rightarrow> Some (user_id u) | None \<Rightarrow> None)"

section \<open>Suggestions\<close>

record suggestion =
  s_user :: user
  s_score :: real
  s_name :: string

text \<open>The relevance score of \<open>get_name_suggestions\<close>: a sum, built by \<open>score += ...\<close>.\<close>

definition suggestion_score :: "string \<Rightarrow> string \<Rightarrow> real" where
  "suggestion_score partial_lower user_name =
     (let score0 = 0;
          score1 = (if startswith (str_lower user_name) partial_lower
                    then score0 + 0.8 else score0);
          score2 = (if contains (str_lower user_name) partial_lower
                    then score1 + 0.6 else score1);
          parts = str_split user_name;
          score3 = (if parts \<noteq> [] \<and> startswith (str_lower (hd parts)) partial_lower
                    then score2 + 0.9 else score2);
          score4 = (if length parts > 1 \<and> startswith (str_lower (last parts)) partial_lower
                    then score3 + 0.7 else score3);
          similarity = ratio partial_lower (str_lower user_name)
      in score4 + similarity * 0.5)"

definition suggestion_step :: "string \<Rightarrow> user \<Rightarrow> suggestion list \<Rightarrow> suggestion list" where
  "suggestion_step partial_lower u suggestions =
     (let user_name = str_strip (user_get_name u) in
      if user_name = [] then suggestions
      else
        let score = suggestion_score partial_lower user_name in
        if score > 0.3
        then suggestions @ [\<lparr>s_user = u, s_score = score, s_name = user_name\<rparr>]
        else suggestions)"

text \<open>
  The slice \<open>xs[:n]\<close> for an integer \<open>n\<close>: the first \<open>n\<close> elements, and for a negative
  \<open>n\<close> all but the last \<open>-n\<close>.
\<close>

definition slice_to :: "'a list \<Rightarrow> int \<Rightarrow> 'a list" where
  "slice_to xs n = (if n \<ge> 0 then take (nat n) xs else take (nat (int (length xs) + n)) xs)"

text \<open>
  \<open>get_name_suggestions\<close>. \<open>suggestions.sort(key=..., reverse=True)\<close> is Python's stable
  sort in descending order of the score: entries with equal scores keep their order. It
  is the stable insertion sort \<open>sort_key\<close> on the negated score.
\<close>

definition get_name_suggestions :: "manager \<Rightarrow> string \<Rightarrow> int \<Rightarrow> suggestion list" where
  "get_name_suggestions mgr partial_name limit =
     (if partial_name = [] \<or> workspace_users mgr = [] then []
      else
        let partial_lower = str_lower (str_strip partial_name);
            suggestions = fold (suggestion_step partial_lower) (workspace_users mgr) []
        in slice_to (sort_key (\<lambda>s. - s_score s) suggestions) limit)"

section \<open>The match endpoint\<close>

text \<open>
  \<open>match_user_name\<close> of the workspace router. Whatever is raised inside becomes the
  HTTP error 500; \<open>user["name"]\<close> raises for an entry without the key.
\<close>

datatype api_error = HTTP_500

record name_match_response =
  found :: bool
  matched_user :: "user option"
  confidence_score :: "real option"
  original_search :: string

definition match_user_name :: "manager \<Rightarrow> string \<Rightarrow> api_error + name_match_response" where
  "match_user_name mgr request_name =
     (case find_user_by_name mgr request_name of
        Some u \<Rightarrow>
          (case name u of
             None \<Rightarrow> Inl HTTP_500
           | Some user_name \<Rightarrow>
               Inr \<lparr>found = True, matched_user = Some u,
                    confidence_score = Some (ratio (str_lower request_name) (str_lower user_name)),
                    original_search = request_name\<rparr>)
      | None \<Rightarrow>
          Inr \<lparr>found = False, matched_user = None, confidence_score = None,
               original_search = request_name\<rparr>)"

section \<open>The paginated fetch\<close>








section \<open>Example directories and pages\<close>

text \<open>The two members of the specification's example, and two more.\<close>

definition u1 :: user where
  "u1 = \<lparr>user_id = ''u1'', name = Some ''Dinesh Kumar'', email = [], kind = ''person''\<rparr>"

definition u2 :: user where
  "u2 = \<lparr>user_id = ''u2'', name = Some ''Divya Kumar'', email = [], kind = ''person''\<rparr>"

definition u3 :: user where
  "u3 = \<lparr>user_id = ''u3'', name = Some ''Kumar'', email = [], kind = ''person''\<rparr>"

definition u4 :: user where
  "u4 = \<lparr>user_id = ''u4'', name = Some ''Asha Rao'', email = [], kind = ''person''\<rparr>"

text \<open>An entry whose name is white space only, and one without the key.\<close>

definition u5 :: user where
  "u5 = \<lparr>user_id = ''u5'', name = Some ''   '', email = [], kind = ''person''\<rparr>"


text \<open>A second member named like the first, for a tie.\<close>

definition u7 :: user where
  "u7 = \<lparr>user_id = ''u7'', name = Some ''Dinesh Kumar'', email = [], kind = ''person''\<rparr>"






section \<open>Properties of the index builder\<close>

text \<open>
  A member registers a key when the loop body of \<open>_build_name_mapping\<close>, run for this
  member on the empty dictionary, writes the key. A member has a name when its stripped
  name is not empty.
\<close>

definition registers :: "user \<Rightarrow> string \<Rightarrow> bool" where
  "registers u k = (register_user Map.empty u k \<noteq> None)"

definition has_name :: "user \<Rightarrow> bool" where
  "has_name u = (str_strip (user_get_name u) \<noteq> [])"

lemma fold_parts_apply:
  "fold (\<lambda>part acc. if part \<noteq> [] then acc(str_lower part \<mapsto> v) else acc) ps m k =
     (if k \<in> str_lower ` {p \<in> set ps. p \<noteq> []} then Some v else m k)"
  by (induction ps arbitrary: m) auto

lemma register_user_apply:
  "register_user m u k = (if registers u k then Some (user_id u) else m k)"
  unfolding registers_def register_user_def
  by (simp add: Let_def fold_parts_apply)

lemma register_user_no_name: "\<not> has_name u \<Longrightarrow> register_user m u = m"
  by (simp add: has_name_def register_user_def)

lemma registers_full_name:
  "has_name u \<Longrightarrow> registers u (str_lower (str_strip (user_get_name u)))"
  by (simp add: has_name_def registers_def register_user_def Let_def fold_parts_apply)

lemma build_name_mapping_fold:
  "build_name_mapping users m = fold (\<lambda>u acc. register_user acc u) users m"
  by (simp add: build_name_mapping_def)

lemma build_name_mapping_append:
  "build_name_mapping (xs @ ys) m = build_name_mapping ys (build_name_mapping xs m)"
  by (simp add: build_name_mapping_fold)

lemma build_name_mapping_Cons:
  "build_name_mapping (u # us) m = build_name_mapping us (register_user m u)"
  by (simp add: build_name_mapping_fold)

lemma build_name_mapping_untouched:
  "\<forall>v \<in> set us. \<not> registers v k \<Longrightarrow> build_name_mapping us m k = m k"
  by (induction us arbitrary: m) (simp_all add: build_name_mapping_fold register_user_apply)

lemma build_name_mapping_last_writer:
  assumes "registers u k" "\<forall>v \<in> set post. \<not> registers v k"
  shows "build_name_mapping (pre @ u # post) m k = Some (user_id u)"
proof -
  have "build_name_mapping (pre @ u # post) m k
      = build_name_mapping post (register_user (build_name_mapping pre m) u) k"
    by (simp add: build_name_mapping_append build_name_mapping_Cons)
  also have "\<dots> = register_user (build_name_mapping pre m) u k"
    using assms(2) by (rule build_name_mapping_untouched)
  also have "\<dots> = Some (user_id u)"
    using assms(1) by (simp add: register_user_apply)
  finally show ?thesis .
qed

lemma last_filter_split:
  "\<exists>x \<in> set xs. P x \<Longrightarrow>
     \<exists>pre post. xs = pre @ last (filter P xs) # post \<and> P (last (filter P xs))
        \<and> (\<forall>v \<in> set post. \<not> P v)"
proof (induction xs rule: rev_induct)
  case Nil
  then show ?case by simp
next
  case (snoc x xs)
  show ?case
  proof (cases "P x")
    case True
    then have "xs @ [x] = xs @ last (filter P (xs @ [x])) # [] \<and> P (last (filter P (xs @ [x])))
        \<and> (\<forall>v \<in> set []. \<not> P v)"
      by simp
    then show ?thesis by blast
  next
    case False
    with snoc.prems have "\<exists>x \<in> set xs. P x" by auto
    from snoc.IH[OF this] obtain pre post where
      "xs = pre @ last (filter P xs) # post" "P (last (filter P xs))" "\<forall>v \<in> set post. \<not> P v"
      by blast
    with False have "xs @ [x] = pre @ last (filter P (xs @ [x])) # (post @ [x])
        \<and> P (last (filter P (xs @ [x]))) \<and> (\<forall>v \<in> set (post @ [x]). \<not> P v)"
      by simp
    then show ?thesis by blast
  qed
qed

lemma find_by_id:
  "u \<in> set D \<Longrightarrow> \<exists>v. find (\<lambda>w. user_id w = user_id u) D = Some v \<and> user_id v = user_id u \<and> v \<in> set D"
  by (induction D) auto

text \<open>
  C4. Last writer wins: when two members register the same key, and no member after the
  later of the two registers it, the key maps to the id of the later one. In the
  example directory, resolving "Kumar" returns "u2".
\<close>

theorem last_writer_wins:
  "(registers m1 k \<and> registers m2 k \<and> (\<forall>v \<in> set post. \<not> registers v k)
      \<longrightarrow> build_name_mapping (pre @ m1 # mid @ m2 # post) Map.empty k = Some (user_id m2))
   \<and> get_user_id_by_name (load_manager [u1, u2]) ''Kumar'' = Some ''u2''"
proof
  show "registers m1 k \<and> registers m2 k \<and> (\<forall>v \<in> set post. \<not> registers v k)
      \<longrightarrow> build_name_mapping (pre @ m1 # mid @ m2 # post) Map.empty k = Some (user_id m2)"
    using build_name_mapping_last_writer[of m2 k post "pre @ m1 # mid" Map.empty] by simp
  show "get_user_id_by_name (load_manager [u1, u2]) ''Kumar'' = Some ''u2''"
    by code_simp
qed

theorem last_writer_wins_witness:
  "registers u3 ''kumar'' \<and> registers u2 ''kumar'' \<and> \<not> registers u4 ''kumar''
   \<and> build_name_mapping [u3, u1, u2, u4] Map.empty ''kumar'' = Some ''u2''"
proof -
  have h: "registers u3 ''kumar'' \<and> registers u2 ''kumar''
      \<and> (\<forall>v \<in> set [u4]. \<not> registers v ''kumar'')"
    by code_simp
  have "build_name_mapping ([] @ u3 # [u1] @ u2 # [u4]) Map.empty ''kumar'' = Some (user_id u2)"
    using last_writer_wins[of u3 "''kumar''" u2 "[u4]" "[]" "[u1]"] h by blast
  moreover have "user_id u2 = ''u2''" by (simp add: u2_def)
  ultimately show ?thesis using h by simp
qed

lemma has_name_nonempty: "has_name u \<Longrightarrow> user_get_name u \<noteq> []"
  by (auto simp: has_name_def str_strip_def)


lemma exact_path_id:
  assumes "r \<in> set D" "user_name_mapping (load_manager D) (str_lower (str_strip q)) = Some (user_id r)"
    and "q \<noteq> []"
  shows "get_user_id_by_name (load_manager D) q = Some (user_id r)"
proof -
  from find_by_id[OF assms(1)] obtain v where
    v: "find (\<lambda>w. user_id w = user_id r) D = Some v" "user_id v = user_id r" by blast
  have "D \<noteq> []" using assms(1) by auto
  then have "find_user_by_name (load_manager D) q = Some v"
    using assms(2,3) v(1) by (simp add: find_user_by_name_def load_manager_def Let_def)
  then show ?thesis using v(2) by (simp add: get_user_id_by_name_def)
qed

text \<open>
  C1, as the code has it. Resolving the full name of a named member takes the exact
  path: the key is in the index, and the id returned is that of the last member of the
  directory that registers the key. It is the member's own id when no member after it
  registers the key.
\<close>

theorem full_name_resolves_to_last_writer:
  assumes "m \<in> set D" "has_name m"
  shows "user_name_mapping (load_manager D) (str_lower (str_strip (user_get_name m)))
           = Some (user_id (last (filter (\<lambda>u. registers u (str_lower (str_strip (user_get_name m)))) D)))
       \<and> get_user_id_by_name (load_manager D) (user_get_name m)
           = Some (user_id (last (filter (\<lambda>u. registers u (str_lower (str_strip (user_get_name m)))) D)))
       \<and> (D = pre @ m # post
              \<and> (\<forall>v \<in> set post. \<not> registers v (str_lower (str_strip (user_get_name m))))
            \<longrightarrow> get_user_id_by_name (load_manager D) (user_get_name m) = Some (user_id m))"
proof -
  let ?k = "str_lower (str_strip (user_get_name m))"
  let ?r = "last (filter (\<lambda>u. registers u ?k) D)"
  have reg: "registers m ?k" using assms(2) by (rule registers_full_name)
  have ne: "user_get_name m \<noteq> []" using assms(2) by (rule has_name_nonempty)
  have "\<exists>x \<in> set D. registers x ?k" using assms(1) reg by blast
  from last_filter_split[OF this] obtain pre' post' where
    split: "D = pre' @ ?r # post'" "registers ?r ?k" "\<forall>v \<in> set post'. \<not> registers v ?k"
    by blast
  have "build_name_mapping (pre' @ ?r # post') Map.empty ?k = Some (user_id ?r)"
    using split(2,3) by (rule build_name_mapping_last_writer)
  then have idx: "user_name_mapping (load_manager D) ?k = Some (user_id ?r)"
    using split(1) by (simp add: load_manager_def)
  have rin: "?r \<in> set D" using split(1) by (metis in_set_conv_decomp)
  have res: "get_user_id_by_name (load_manager D) (user_get_name m) = Some (user_id ?r)"
    using rin idx ne by (rule exact_path_id)
  have own: "get_user_id_by_name (load_manager D) (user_get_name m) = Some (user_id m)"
    if d: "D = pre @ m # post" and p: "\<forall>v \<in> set post. \<not> registers v ?k"
  proof -
    have "build_name_mapping (pre @ m # post) Map.empty ?k = Some (user_id m)"
      using reg p by (rule build_name_mapping_last_writer)
    then have "user_name_mapping (load_manager D) ?k = Some (user_id m)"
      using d by (simp add: load_manager_def)
    with assms(1) show ?thesis using ne by (rule exact_path_id)
  qed
  show ?thesis using idx res own by blast
qed

theorem full_name_resolves_to_last_writer_witness:
  "u3 \<in> set [u3, u1, u4] \<and> has_name u3 \<and> \<not> registers u4 ''kumar''
   \<and> get_user_id_by_name (load_manager [u3, u1, u4]) ''Kumar'' = Some ''u1''
   \<and> get_user_id_by_name (load_manager [u3, u1, u4]) ''Dinesh Kumar'' = Some ''u1''"
proof -
  have m3: "u3 \<in> set [u3, u1, u4]" and m1: "u1 \<in> set [u3, u1, u4]" by simp_all
  have n3: "has_name u3" and n1: "has_name u1" by code_simp+
  have k1: "str_lower (str_strip (user_get_name u1)) = ''dinesh kumar''" by code_simp
  have post: "\<forall>v \<in> set [u4]. \<not> registers v ''dinesh kumar''" by code_simp
  have last3: "user_id (last (filter (\<lambda>u. registers u (str_lower (str_strip (user_get_name u3)))) [u3, u1, u4])) = ''u1''"
    by code_simp
  have a: "get_user_id_by_name (load_manager [u3, u1, u4]) (user_get_name u3) = Some ''u1''"
    using full_name_resolves_to_last_writer[OF m3 n3, THEN conjunct2, THEN conjunct1]
    by (simp only: last3)
  have b: "get_user_id_by_name (load_manager [u3, u1, u4]) (user_get_name u1) = Some (user_id u1)"
  proof -
    have "[u3, u1, u4] = [u3] @ u1 # [u4]
        \<and> (\<forall>v \<in> set [u4]. \<not> registers v (str_lower (str_strip (user_get_name u1))))"
      unfolding k1 using post by simp
    with full_name_resolves_to_last_writer[OF m1 n1, of "[u3]" "[u4]"] show ?thesis by blast
  qed
  have "\<not> registers u4 ''kumar''" by code_simp
  then show ?thesis using a b n3 by (simp add: u3_def u1_def user_get_name_def)
qed

text \<open>
  The claim as stated fails: in the directory of "Kumar" followed by "Divya Kumar" the
  second member overwrites the key "kumar", and the full name of the first resolves to
  the second.
\<close>

theorem full_name_own_id_counterexample:
  "u3 \<in> set [u3, u2] \<and> str_strip (user_get_name u3) \<noteq> []
   \<and> get_user_id_by_name (load_manager [u3, u2]) (user_get_name u3) = Some ''u2''
   \<and> get_user_id_by_name (load_manager [u3, u2]) (user_get_name u3) \<noteq> Some (user_id u3)"
  by code_simp




section \<open>Entries without a name\<close>












section \<open>Properties of the matcher\<close>

text \<open>The score of a member for a normalised query, as the loop computes it.\<close>

definition member_score :: "string \<Rightarrow> user \<Rightarrow> real" where
  "member_score search_lower u = fuzzy_score search_lower (str_strip (user_get_name u))"

lemma fuzzy_step_cases:
  "fuzzy_step s x (bm, bs, ms) =
     (if has_name x \<and> 0.5 \<le> member_score s x
      then (if bs < member_score s x then (Some x, member_score s x, ms @ [(x, member_score s x)])
            else (bm, bs, ms @ [(x, member_score s x)]))
      else (bm, bs, ms))"
  by (simp add: fuzzy_step_def has_name_def member_score_def Let_def)

text \<open>
  What the loop has found after a part of the directory: nothing, when no named member
  reached 0.5; otherwise the first member among those with the highest score.
\<close>

definition best_so_far :: "string \<Rightarrow> user list \<Rightarrow> user option \<Rightarrow> real \<Rightarrow> bool" where
  "best_so_far s us bm bs =
     ((bm = None \<and> bs = 0 \<and> (\<forall>v \<in> set us. has_name v \<longrightarrow> member_score s v < 0.5))
      \<or> (\<exists>pre u post. us = pre @ u # post \<and> has_name u \<and> bm = Some u
            \<and> bs = member_score s u \<and> 0.5 \<le> member_score s u
            \<and> (\<forall>v \<in> set pre. has_name v \<longrightarrow> member_score s v < member_score s u)
            \<and> (\<forall>v \<in> set post. has_name v \<longrightarrow> member_score s v \<le> member_score s u)))"

lemma best_so_far_step:
  assumes "best_so_far s us bm bs" "fuzzy_step s x (bm, bs, ms) = (bm', bs', ms')"
  shows "best_so_far s (us @ [x]) bm' bs'"
proof (cases "has_name x \<and> 0.5 \<le> member_score s x")
  case False
  then have same: "bm' = bm" "bs' = bs" using assms(2) by (auto simp: fuzzy_step_cases)
  from assms(1) show ?thesis unfolding best_so_far_def
  proof (elim disjE exE conjE)
    assume "bm = None" "bs = 0" "\<forall>v \<in> set us. has_name v \<longrightarrow> member_score s v < 0.5"
    with False same show "(bm' = None \<and> bs' = 0 \<and> (\<forall>v \<in> set (us @ [x]). has_name v \<longrightarrow> member_score s v < 0.5))
      \<or> (\<exists>pre u post. us @ [x] = pre @ u # post \<and> has_name u \<and> bm' = Some u
            \<and> bs' = member_score s u \<and> 0.5 \<le> member_score s u
            \<and> (\<forall>v \<in> set pre. has_name v \<longrightarrow> member_score s v < member_score s u)
            \<and> (\<forall>v \<in> set post. has_name v \<longrightarrow> member_score s v \<le> member_score s u))"
      by auto
  next
    fix pre u post
    assume a: "us = pre @ u # post" "has_name u" "bm = Some u" "bs = member_score s u"
      "0.5 \<le> member_score s u"
      "\<forall>v \<in> set pre. has_name v \<longrightarrow> member_score s v < member_score s u"
      "\<forall>v \<in> set post. has_name v \<longrightarrow> member_score s v \<le> member_score s u"
    have "us @ [x] = pre @ u # (post @ [x])" using a(1) by simp
    moreover have "\<forall>v \<in> set (post @ [x]). has_name v \<longrightarrow> member_score s v \<le> member_score s u"
      using a(5,7) False by auto
    ultimately show "(bm' = None \<and> bs' = 0 \<and> (\<forall>v \<in> set (us @ [x]). has_name v \<longrightarrow> member_score s v < 0.5))
      \<or> (\<exists>pre u post. us @ [x] = pre @ u # post \<and> has_name u \<and> bm' = Some u
            \<and> bs' = member_score s u \<and> 0.5 \<le> member_score s u
            \<and> (\<forall>v \<in> set pre. has_name v \<longrightarrow> member_score s v < member_score s u)
            \<and> (\<forall>v \<in> set post. has_name v \<longrightarrow> member_score s v \<le> member_score s u))"
      using a(2,3,4,5,6) same by blast
  qed
next
  case cand: True
  show ?thesis
  proof (cases "bs < member_score s x")
    case True
    then have new: "bm' = Some x" "bs' = member_score s x"
      using assms(2) cand by (auto simp: fuzzy_step_cases)
    have "\<forall>v \<in> set us. has_name v \<longrightarrow> member_score s v < member_score s x"
      using assms(1) True cand unfolding best_so_far_def by fastforce
    then have "us @ [x] = us @ x # [] \<and> has_name x \<and> bm' = Some x
            \<and> bs' = member_score s x \<and> 0.5 \<le> member_score s x
            \<and> (\<forall>v \<in> set us. has_name v \<longrightarrow> member_score s v < member_score s x)
            \<and> (\<forall>v \<in> set []. has_name v \<longrightarrow> member_score s v \<le> member_score s x)"
      using new cand by simp
    then show ?thesis unfolding best_so_far_def by blast
  next
    case False
    then have same: "bm' = bm" "bs' = bs" using assms(2) cand by (auto simp: fuzzy_step_cases)
    from False cand have "bs \<noteq> 0" by auto
    with assms(1) obtain pre u post where
      a: "us = pre @ u # post" "has_name u" "bm = Some u" "bs = member_score s u"
      "0.5 \<le> member_score s u"
      "\<forall>v \<in> set pre. has_name v \<longrightarrow> member_score s v < member_score s u"
      "\<forall>v \<in> set post. has_name v \<longrightarrow> member_score s v \<le> member_score s u"
      unfolding best_so_far_def by blast
    have "us @ [x] = pre @ u # (post @ [x])" using a(1) by simp
    moreover have "\<forall>v \<in> set (post @ [x]). has_name v \<longrightarrow> member_score s v \<le> member_score s u"
      using a(4,7) False by auto
    ultimately show ?thesis unfolding best_so_far_def
      using a(2,3,4,5,6) same by blast
  qed
qed

lemma best_so_far_fold:
  "fold (fuzzy_step s) us (None, 0, []) = (bm, bs, ms) \<Longrightarrow> best_so_far s us bm bs"
proof (induction us arbitrary: bm bs ms rule: rev_induct)
  case Nil
  then show ?case by (simp add: best_so_far_def)
next
  case (snoc x us)
  obtain bm0 bs0 ms0 where st: "fold (fuzzy_step s) us (None, 0, []) = (bm0, bs0, ms0)"
    by (cases "fold (fuzzy_step s) us (None, 0, [])") auto
  from snoc.IH[OF st] have "best_so_far s us bm0 bs0" .
  moreover from snoc.prems st have "fuzzy_step s x (bm0, bs0, ms0) = (bm, bs, ms)" by simp
  ultimately show ?case by (rule best_so_far_step)
qed

lemma find_user_by_name_fuzzy:
  assumes "q \<noteq> []" "user_name_mapping mgr (str_lower (str_strip q)) = None"
    and "fold (fuzzy_step (str_lower (str_strip q))) (workspace_users mgr) (None, 0, []) = (bm, bs, ms)"
  shows "find_user_by_name mgr q = (if bm \<noteq> None \<and> 0.6 \<le> bs then bm else None)"
proof (cases "workspace_users mgr = []")
  case True
  with assms(3) show ?thesis by (auto simp: find_user_by_name_def)
next
  case False
  with assms show ?thesis by (simp add: find_user_by_name_def)
qed

text \<open>
  C3. For a non-empty query whose normalised form is not in the index: a member is
  returned only if its score, the highest of the directory, is at least 0.6; every
  named member before it scores strictly less and every one after it at most as much, so
  of several members with the top score the earliest is returned. When nothing is
  returned, every named member scores below 0.6.
\<close>

theorem fuzzy_match_threshold_and_ties:
  assumes "q \<noteq> []" "user_name_mapping mgr (str_lower (str_strip q)) = None"
  shows "(find_user_by_name mgr q = Some u \<longrightarrow>
            (\<exists>pre post. workspace_users mgr = pre @ u # post \<and> has_name u
               \<and> 0.6 \<le> member_score (str_lower (str_strip q)) u
               \<and> (\<forall>v \<in> set pre. has_name v \<longrightarrow>
                     member_score (str_lower (str_strip q)) v < member_score (str_lower (str_strip q)) u)
               \<and> (\<forall>v \<in> set post. has_name v \<longrightarrow>
                     member_score (str_lower (str_strip q)) v \<le> member_score (str_lower (str_strip q)) u)))
       \<and> (find_user_by_name mgr q = None \<longrightarrow>
            (\<forall>v \<in> set (workspace_users mgr). has_name v \<longrightarrow>
                 member_score (str_lower (str_strip q)) v < 0.6))"
proof -
  let ?s = "str_lower (str_strip q)"
  obtain bm bs ms where st: "fold (fuzzy_step ?s) (workspace_users mgr) (None, 0, []) = (bm, bs, ms)"
    by (cases "fold (fuzzy_step ?s) (workspace_users mgr) (None, 0, [])") auto
  have res: "find_user_by_name mgr q = (if bm \<noteq> None \<and> 0.6 \<le> bs then bm else None)"
    using assms st by (rule find_user_by_name_fuzzy)
  have inv: "best_so_far ?s (workspace_users mgr) bm bs"
    using st by (rule best_so_far_fold)
  show ?thesis
  proof (intro conjI impI)
    assume "find_user_by_name mgr q = Some u"
    with res have "bm = Some u" "0.6 \<le> bs" by (auto split: if_splits)
    with inv show "\<exists>pre post. workspace_users mgr = pre @ u # post \<and> has_name u
               \<and> 0.6 \<le> member_score ?s u
               \<and> (\<forall>v \<in> set pre. has_name v \<longrightarrow> member_score ?s v < member_score ?s u)
               \<and> (\<forall>v \<in> set post. has_name v \<longrightarrow> member_score ?s v \<le> member_score ?s u)"
      unfolding best_so_far_def by auto
  next
    assume none: "find_user_by_name mgr q = None"
    from inv show "\<forall>v \<in> set (workspace_users mgr). has_name v \<longrightarrow> member_score ?s v < 0.6"
      unfolding best_so_far_def
    proof (elim disjE exE conjE)
      assume "\<forall>v \<in> set (workspace_users mgr). has_name v \<longrightarrow> member_score ?s v < 0.5"
      then show ?thesis by fastforce
    next
      fix pre w post
      assume a: "workspace_users mgr = pre @ w # post" "bm = Some w" "bs = member_score ?s w"
        "\<forall>v \<in> set pre. has_name v \<longrightarrow> member_score ?s v < member_score ?s w"
        "\<forall>v \<in> set post. has_name v \<longrightarrow> member_score ?s v \<le> member_score ?s w"
      from none res a(2) have "bs < 0.6" by (auto split: if_splits)
      with a show ?thesis by fastforce
    qed
  qed
qed

theorem fuzzy_match_threshold_and_ties_witness:
  "''Dines'' \<noteq> []
   \<and> user_name_mapping (load_manager [u1, u7]) (str_lower (str_strip ''Dines'')) = None
   \<and> find_user_by_name (load_manager [u1, u7]) ''Dines'' = Some u1
   \<and> 0.6 \<le> member_score (str_lower (str_strip ''Dines'')) u1
   \<and> member_score (str_lower (str_strip ''Dines'')) u7 = member_score (str_lower (str_strip ''Dines'')) u1
   \<and> user_name_mapping (load_manager [u1, u7]) (str_lower (str_strip ''xyz'')) = None
   \<and> find_user_by_name (load_manager [u1, u7]) ''xyz'' = None
   \<and> member_score (str_lower (str_strip ''xyz'')) u7 < 0.6"
proof -
  have q: "''Dines'' \<noteq> []" "''xyz'' \<noteq> []" by simp_all
  have miss: "user_name_mapping (load_manager [u1, u7]) (str_lower (str_strip ''Dines'')) = None"
    "user_name_mapping (load_manager [u1, u7]) (str_lower (str_strip ''xyz'')) = None"
    by code_simp+
  have hit: "find_user_by_name (load_manager [u1, u7]) ''Dines'' = Some u1" by code_simp
  have none: "find_user_by_name (load_manager [u1, u7]) ''xyz'' = None" by code_simp
  have tie: "member_score (str_lower (str_strip ''Dines'')) u7
      = member_score (str_lower (str_strip ''Dines'')) u1"
    by (simp add: member_score_def u1_def u7_def user_get_name_def)
  have n7: "has_name u7" "u7 \<in> set (workspace_users (load_manager [u1, u7]))"
    by (code_simp, simp add: load_manager_def)
  have a: "0.6 \<le> member_score (str_lower (str_strip ''Dines'')) u1"
    using fuzzy_match_threshold_and_ties[OF q(1) miss(1), of u1] hit by blast
  have b: "member_score (str_lower (str_strip ''xyz'')) u7 < 0.6"
    using fuzzy_match_threshold_and_ties[OF q(2) miss(2), of u1] none n7 by blast
  show ?thesis using q miss hit none tie a b by blast
qed

section \<open>Queries of white space only\<close>

lemma split_acc_tokens: "\<forall>p \<in> set (split_acc s cur). p \<noteq> []"
  by (induction s arbitrary: cur) auto

lemma str_split_tokens: "p \<in> set (str_split s) \<Longrightarrow> p \<noteq> []"
  using split_acc_tokens by (auto simp: str_split_def)

lemma split_acc_nonempty:
  "(\<exists>c \<in> set s. \<not> is_space c) \<or> cur \<noteq> [] \<Longrightarrow> split_acc s cur \<noteq> []"
  by (induction s arbitrary: cur) auto

lemma str_strip_has_letter: "str_strip s \<noteq> [] \<Longrightarrow> \<exists>c \<in> set (str_strip s). \<not> is_space c"
proof -
  assume "str_strip s \<noteq> []"
  then have ne: "dropWhile is_space (rev (dropWhile is_space s)) \<noteq> []"
    by (simp add: str_strip_def)
  then have "\<not> is_space (hd (dropWhile is_space (rev (dropWhile is_space s))))"
    by (rule hd_dropWhile)
  moreover have "hd (dropWhile is_space (rev (dropWhile is_space s))) \<in> set (str_strip s)"
    using ne by (simp add: str_strip_def)
  ultimately show ?thesis by blast
qed

lemma has_name_parts: "has_name u \<Longrightarrow> str_split (str_strip (user_get_name u)) \<noteq> []"
  using str_strip_has_letter split_acc_nonempty by (auto simp: has_name_def str_split_def)

lemma str_lower_empty: "str_lower s = [] \<longleftrightarrow> s = []" "[] = str_lower s \<longleftrightarrow> s = []"
  by (auto simp: str_lower_def)

lemma initials_nonempty:
  "parts \<noteq> [] \<Longrightarrow> \<forall>p \<in> set parts. p \<noteq> [] \<Longrightarrow> initials_of parts \<noteq> []"
  by (cases parts) (auto simp: initials_of_def)

lemma empty_key_not_registered: "\<not> registers u []"
proof (cases "has_name u")
  case False
  then show ?thesis by (simp add: registers_def register_user_no_name)
next
  case True
  let ?parts = "str_split (str_strip (user_get_name u))"
  have nm: "str_strip (user_get_name u) \<noteq> []" using True by (simp add: has_name_def)
  have parts: "?parts \<noteq> []" using True by (rule has_name_parts)
  have tok: "\<forall>p \<in> set ?parts. p \<noteq> []" using str_split_tokens by blast
  have "hd ?parts \<noteq> []" "last ?parts \<noteq> []" using parts tok by simp_all
  moreover have "initials_of ?parts \<noteq> []" using parts tok by (rule initials_nonempty)
  moreover have "[] \<notin> str_lower ` {p \<in> set (butlast (tl ?parts)). p \<noteq> []}"
    by (auto simp: str_lower_empty)
  ultimately show ?thesis
    using nm by (simp add: registers_def register_user_def Let_def fold_parts_apply str_lower_empty)
qed

lemma empty_key_not_indexed: "user_name_mapping (load_manager D) [] = None"
  using build_name_mapping_untouched[of D "[]" Map.empty] empty_key_not_registered
  by (simp add: load_manager_def)

lemma find_longest_match_empty: "find_longest_match [] b b2j 0 0 0 bhi = (0, 0, 0)"
  by (simp add: find_longest_match_def extend_back.simps[of "[]" b 0 0 0 0 0]
        extend_fwd.simps[of "[]" b 0 bhi 0 0 0])

lemma ratio_empty: "b \<noteq> [] \<Longrightarrow> ratio [] b = 0"
proof -
  assume "b \<noteq> []"
  have "gmb_loop [] b (chain_b b) [(0, 0, 0, length b)] [] = gmb_loop [] b (chain_b b) [] []"
    by (subst gmb_loop.simps) (simp add: gmb_step_def find_longest_match_empty)
  also have "\<dots> = []" by (subst gmb_loop.simps) simp
  finally show ?thesis using \<open>b \<noteq> []\<close> by (simp add: ratio_def get_matching_blocks_def Let_def)
qed

lemma contains_empty: "contains s []"
  by (cases s) (simp_all add: startswith_def)

lemma fold_no_middle_match:
  "\<forall>p \<in> set ps. \<not> P p \<Longrightarrow>
     fold (\<lambda>part sc. if P part then sc @ [c] else sc) ps sc0 = sc0"
  by (induction ps arbitrary: sc0) auto

lemma blank_score: "has_name u \<Longrightarrow> member_score [] u = 0.8"
proof -
  assume named: "has_name u"
  let ?n = "str_strip (user_get_name u)"
  let ?parts = "str_split ?n"
  have nm: "?n \<noteq> []" using named by (simp add: has_name_def)
  have parts: "?parts \<noteq> []" using named by (rule has_name_parts)
  have tok: "\<forall>p \<in> set ?parts. p \<noteq> []" using str_split_tokens by blast
  have h: "hd ?parts \<noteq> []" "last ?parts \<noteq> []" using parts tok by simp_all
  have ini: "[] \<noteq> initials_of ?parts" using initials_nonempty[OF parts tok] by simp
  have "\<forall>p \<in> set (butlast (tl ?parts)). p \<noteq> []"
  proof
    fix p assume "p \<in> set (butlast (tl ?parts))"
    then have "p \<in> set (tl ?parts)" by (rule in_set_butlastD)
    then have "p \<in> set ?parts" using parts by (rule list.set_sel(2)[rotated])
    with tok show "p \<noteq> []" by blast
  qed
  then have mid: "fold (\<lambda>part sc. if part = [] then sc @ [c] else sc)
      (butlast (tl ?parts)) sc0 = sc0" for sc0 :: "real list" and c
    by (rule fold_no_middle_match)
  have r: "ratio [] (str_lower ?n) = 0" using nm by (simp add: ratio_empty str_lower_empty)
  show ?thesis
    unfolding member_score_def fuzzy_score_def Let_def
    using h ini by (simp add: mid r max_score_def str_lower_empty contains_empty)
qed

lemma first_named_unique:
  assumes "pre @ u # post = pre' @ w # post'"
    and "\<forall>v \<in> set pre. \<not> P v" "P u" "\<forall>v \<in> set pre'. \<not> P v" "P w"
  shows "u = w"
proof -
  have "takeWhile (\<lambda>v. \<not> P v) (pre @ u # post) = pre"
    using assms(2,3) by (simp add: takeWhile_tail)
  moreover have "takeWhile (\<lambda>v. \<not> P v) (pre' @ w # post') = pre'"
    using assms(4,5) by (simp add: takeWhile_tail)
  ultimately have "pre = pre'" using assms(1) by simp
  with assms(1) show ?thesis by simp
qed

lemma blank_query_first_named:
  assumes q: "q \<noteq> []" "str_strip q = []"
    and d: "D = pre @ u # post" "has_name u" "\<forall>v \<in> set pre. \<not> has_name v"
  shows "find_user_by_name (load_manager D) q = Some u"
proof -
  let ?mgr = "load_manager D"
  have s: "str_lower (str_strip q) = []" using q(2) by (simp add: str_lower_empty)
  have miss: "user_name_mapping ?mgr (str_lower (str_strip q)) = None"
    unfolding s by (rule empty_key_not_indexed)
  obtain bm bs ms where st:
    "fold (fuzzy_step []) (workspace_users ?mgr) (None, 0, []) = (bm, bs, ms)"
    by (cases "fold (fuzzy_step []) (workspace_users ?mgr) (None, 0, [])") auto
  have res: "find_user_by_name ?mgr q = (if bm \<noteq> None \<and> 0.6 \<le> bs then bm else None)"
    using q(1) miss st[folded s] by (rule find_user_by_name_fuzzy)
  have inv: "best_so_far [] D bm bs"
    using best_so_far_fold[OF st] by (simp add: load_manager_def)
  have uin: "u \<in> set D" using d(1) by simp
  have "\<not> (\<forall>v \<in> set D. has_name v \<longrightarrow> member_score [] v < 0.5)"
    using uin d(2) blank_score[OF d(2)] by force
  with inv obtain pre' w post' where w: "D = pre' @ w # post'" "has_name w" "bm = Some w"
    "bs = member_score [] w"
    "\<forall>v \<in> set pre'. has_name v \<longrightarrow> member_score [] v < member_score [] w"
    unfolding best_so_far_def by blast
  have "\<forall>v \<in> set pre'. \<not> has_name v"
  proof
    fix v assume "v \<in> set pre'"
    show "\<not> has_name v"
    proof
      assume "has_name v"
      with w(5) \<open>v \<in> set pre'\<close> have "member_score [] v < member_score [] w" by blast
      then show False using blank_score[OF \<open>has_name v\<close>] blank_score[OF w(2)] by simp
    qed
  qed
  then have "u = w"
    using first_named_unique[of pre u post pre' w post' has_name] d w(1,2) by simp
  moreover have "bs = 0.8" using w(4) blank_score[OF w(2)] by simp
  ultimately show ?thesis using res w(3) by simp
qed

text \<open>
  C2. The empty query returns no member, whatever the manager holds. A query of white
  space only passes the test \<open>not search_name\<close>, is stripped to the empty string, misses
  the index and then scores 0.8 with every named member, the empty string being
  contained in every name: the first named member of the directory is returned, whatever
  the directory holds.
\<close>

theorem blank_query_returns_first_member:
  "find_user_by_name mgr [] = None
   \<and> (q \<noteq> [] \<and> str_strip q = [] \<and> D = pre @ u # post \<and> has_name u
        \<and> (\<forall>v \<in> set pre. \<not> has_name v)
      \<longrightarrow> find_user_by_name (load_manager D) q = Some u)
   \<and> find_user_by_name (load_manager [u1, u2]) '' '' = Some u1"
proof (intro conjI impI)
  show "find_user_by_name mgr [] = None" by (simp add: find_user_by_name_def)
  show "find_user_by_name (load_manager [u1, u2]) '' '' = Some u1" by code_simp
next
  assume "q \<noteq> [] \<and> str_strip q = [] \<and> D = pre @ u # post \<and> has_name u
        \<and> (\<forall>v \<in> set pre. \<not> has_name v)"
  then show "find_user_by_name (load_manager D) q = Some u"
    using blank_query_first_named[of q D pre u post] by blast
qed

theorem blank_query_returns_first_member_witness:
  "[CHR 0x09, CHR '' ''] \<noteq> [] \<and> str_strip [CHR 0x09, CHR '' ''] = []
   \<and> has_name u2 \<and> \<not> has_name u5
   \<and> find_user_by_name (load_manager [u5, u2, u1]) [CHR 0x09, CHR '' ''] = Some u2"
proof -
  have h: "[CHR 0x09, CHR '' ''] \<noteq> [] \<and> str_strip [CHR 0x09, CHR '' ''] = []
      \<and> [u5, u2, u1] = [u5] @ u2 # [u1] \<and> has_name u2 \<and> (\<forall>v \<in> set [u5]. \<not> has_name v)"
    by code_simp
  then have "find_user_by_name (load_manager [u5, u2, u1]) [CHR 0x09, CHR '' ''] = Some u2"
    using blank_query_returns_first_member[of _ "[CHR 0x09, CHR '' '']" "[u5, u2, u1]" "[u5]" u2 "[u1]"]
    by blast
  with h show ?thesis by simp
qed

section \<open>Properties of the suggestions\<close>

text \<open>
  The suggestion the loop appends for a member, and the test under which it does.
\<close>

definition suggestion_of :: "string \<Rightarrow> user \<Rightarrow> suggestion" where
  "suggestion_of partial_lower u =
     \<lparr>s_user = u,
      s_score = suggestion_score partial_lower (str_strip (user_get_name u)),
      s_name = str_strip (user_get_name u)\<rparr>"

definition qualifies :: "string \<Rightarrow> user \<Rightarrow> bool" where
  "qualifies partial_lower u =
     (has_name u \<and> 0.3 < suggestion_score partial_lower (str_strip (user_get_name u)))"

lemma suggestion_step_cases:
  "suggestion_step p u acc = (if qualifies p u then acc @ [suggestion_of p u] else acc)"
  by (simp add: suggestion_step_def qualifies_def suggestion_of_def has_name_def Let_def)

lemma suggestion_fold:
  "fold (suggestion_step p) D acc = acc @ map (suggestion_of p) (filter (qualifies p) D)"
  by (induction D arbitrary: acc) (simp_all add: suggestion_step_cases)

lemma get_name_suggestions_eq:
  "get_name_suggestions mgr q limit =
     (if q = [] then []
      else slice_to (sort_key (\<lambda>s. - s_score s)
             (map (suggestion_of (str_lower (str_strip q)))
                (filter (qualifies (str_lower (str_strip q))) (workspace_users mgr)))) limit)"
proof (cases "workspace_users mgr = []")
  case True
  then show ?thesis by (simp add: get_name_suggestions_def slice_to_def)
next
  case False
  then show ?thesis by (simp add: get_name_suggestions_def suggestion_fold Let_def)
qed

lemma slice_to_take: "\<exists>n. slice_to xs limit = take n xs"
  by (auto simp: slice_to_def)

lemma set_slice_to: "set (slice_to xs limit) \<subseteq> set xs"
  using slice_to_take[of xs limit] by (metis set_take_subset)

lemma suggestions_sound:
  assumes "s \<in> set (get_name_suggestions mgr q limit)"
  shows "\<exists>u \<in> set (workspace_users mgr).
           s = suggestion_of (str_lower (str_strip q)) u \<and> qualifies (str_lower (str_strip q)) u"
proof -
  from assms have "q \<noteq> []" by (auto simp: get_name_suggestions_eq split: if_splits)
  with assms have "s \<in> set (slice_to (sort_key (\<lambda>s. - s_score s)
             (map (suggestion_of (str_lower (str_strip q)))
                (filter (qualifies (str_lower (str_strip q))) (workspace_users mgr)))) limit)"
    by (simp add: get_name_suggestions_eq)
  then have "s \<in> set (sort_key (\<lambda>s. - s_score s)
             (map (suggestion_of (str_lower (str_strip q)))
                (filter (qualifies (str_lower (str_strip q))) (workspace_users mgr))))"
    by (rule set_slice_to[THEN subsetD])
  then show ?thesis by auto
qed









section \<open>Bounds of the scores\<close>

lemma suggestion_score_upper: "suggestion_score p n \<le> 3.5"
proof -
  have "ratio p (str_lower n) * 0.5 \<le> 0.5" using ratio_bounds(2)[of p "str_lower n"] by simp
  then show ?thesis by (simp add: suggestion_score_def Let_def)
qed

lemma fold_max_mem: "fold max ss (s :: real) \<in> set (s # ss)"
proof (induction ss arbitrary: s)
  case Nil
  then show ?case by simp
next
  case (Cons x xs)
  have "fold max xs (max x s) \<in> set (max x s # xs)" by (rule Cons.IH)
  moreover have "max x s = x \<or> max x s = s" by (simp add: max_def)
  ultimately show ?case by auto
qed

lemma max_score_mem: "scores \<noteq> [] \<Longrightarrow> max_score scores \<in> set scores"
  using fold_max_mem by (cases scores) (auto simp: max_score_def)

text \<open>A list of scores that is not empty and holds numbers between 0 and 1 only.\<close>

definition unit_scores :: "real list \<Rightarrow> bool" where
  "unit_scores xs = (xs \<noteq> [] \<and> (\<forall>x \<in> set xs. 0 \<le> x \<and> x \<le> 1))"

lemma unit_scores_snoc: "unit_scores xs \<Longrightarrow> 0 \<le> c \<Longrightarrow> c \<le> 1 \<Longrightarrow> unit_scores (xs @ [c])"
  by (simp add: unit_scores_def)

lemma unit_scores_fold:
  "unit_scores sc0 \<Longrightarrow> 0 \<le> c \<Longrightarrow> c \<le> 1 \<Longrightarrow>
     unit_scores (fold (\<lambda>part sc. if P part then sc @ [c] else sc) ps sc0)"
  by (induction ps arbitrary: sc0) (simp_all add: unit_scores_snoc)

lemma unit_scores_max: "unit_scores xs \<Longrightarrow> 0 \<le> max_score xs \<and> max_score xs \<le> 1"
  using max_score_mem[of xs] by (simp add: unit_scores_def)

lemma fuzzy_score_bounds: "0 \<le> fuzzy_score s n \<and> fuzzy_score s n \<le> 1"
proof -
  define sc1 where "sc1 = (if contains (str_lower n) s \<or> contains s (str_lower n)
                     then [ratio s (str_lower n)] @ [0.8] else [ratio s (str_lower n)])"
  define sc2 where "sc2 = (if str_split n \<noteq> [] \<and> s = str_lower (hd (str_split n))
                     then sc1 @ [0.95] else sc1)"
  define sc3 where "sc3 = (if length (str_split n) > 1 \<and> s = str_lower (last (str_split n))
                     then sc2 @ [0.9] else sc2)"
  define sc4 where "sc4 = fold (\<lambda>part sc. if s = str_lower part then sc @ [0.85] else sc)
                      (butlast (tl (str_split n))) sc3"
  define sc5 where "sc5 = (if s = initials_of (str_split n) then sc4 @ [0.9] else sc4)"
  have "unit_scores [ratio s (str_lower n)]"
    using ratio_bounds[of s "str_lower n"] by (simp add: unit_scores_def)
  then have "unit_scores sc1" unfolding sc1_def by (simp add: unit_scores_def)
  then have "unit_scores sc2" unfolding sc2_def by (simp add: unit_scores_snoc)
  then have "unit_scores sc3" unfolding sc3_def by (simp add: unit_scores_snoc)
  then have "unit_scores sc4" unfolding sc4_def by (rule unit_scores_fold) simp_all
  then have "unit_scores sc5" unfolding sc5_def by (simp add: unit_scores_snoc)
  moreover have "fuzzy_score s n = max_score sc5"
    unfolding fuzzy_score_def Let_def sc5_def sc4_def sc3_def sc2_def sc1_def by (rule refl)
  ultimately show ?thesis using unit_scores_max by simp
qed

text \<open>
  C10. Every suggestion returned has a score above 0.3 and at most 3.5, the sum of the
  four bonuses and half of a ratio that is at most 1. Such a score can exceed 1: the
  first suggestion for "Di" in the example directory does. The score the matcher gives
  a member lies between 0 and 1.
\<close>

theorem score_ranges:
  "(\<forall>s \<in> set (get_name_suggestions mgr q limit). 0.3 < s_score s \<and> s_score s \<le> 3.5)
   \<and> 1 < s_score (hd (get_name_suggestions (load_manager [u1, u2]) ''Di'' 5))
   \<and> 0 \<le> fuzzy_score search_lower user_name \<and> fuzzy_score search_lower user_name \<le> 1"
proof (intro conjI ballI)
  fix s assume "s \<in> set (get_name_suggestions mgr q limit)"
  from suggestions_sound[OF this] obtain u where
    u: "s = suggestion_of (str_lower (str_strip q)) u" "qualifies (str_lower (str_strip q)) u"
    by blast
  then show "0.3 < s_score s" by (simp add: qualifies_def suggestion_of_def)
  from u(1) show "s_score s \<le> 3.5"
    using suggestion_score_upper[of "str_lower (str_strip q)" "str_strip (user_get_name u)"]
    by (simp add: suggestion_of_def)
next
  show "1 < s_score (hd (get_name_suggestions (load_manager [u1, u2]) ''Di'' 5))"
    by code_simp
next
  show "0 \<le> fuzzy_score search_lower user_name" "fuzzy_score search_lower user_name \<le> 1"
    using fuzzy_score_bounds[of search_lower user_name] by simp_all
qed

theorem score_ranges_witness:
  "get_name_suggestions (load_manager [u1, u2]) ''Di'' 5
     = [suggestion_of ''di'' u2, suggestion_of ''di'' u1]
   \<and> 0.3 < s_score (suggestion_of ''di'' u1) \<and> s_score (suggestion_of ''di'' u1) \<le> 3.5
   \<and> s_score (suggestion_of ''di'' u1) = 171 / 70"
proof -
  have out: "get_name_suggestions (load_manager [u1, u2]) ''Di'' 5
     = [suggestion_of ''di'' u2, suggestion_of ''di'' u1]"
    by code_simp
  have v: "s_score (suggestion_of ''di'' u1) = 171 / 70" by code_simp
  have "suggestion_of ''di'' u1 \<in> set (get_name_suggestions (load_manager [u1, u2]) ''Di'' 5)"
    unfolding out by simp
  with score_ranges[of "load_manager [u1, u2]" "''Di''" 5]
  have "0.3 < s_score (suggestion_of ''di'' u1) \<and> s_score (suggestion_of ''di'' u1) \<le> 3.5"
    by blast
  with out v show ?thesis by blast
qed

section \<open>Properties of the match endpoint\<close>

text \<open>
  C6, as the code has it. The endpoint computes the confidence for every member found,
  on the exact path as on the fuzzy one: it is the ratio of the lower-cased request, not
  stripped, and the lower-cased name of the member, a number between 0 and 1, and 1
  when the two strings are equal.
\<close>

theorem exact_hit_confidence_is_ratio:
  assumes "q \<noteq> []" "workspace_users mgr \<noteq> []"
    and "user_name_mapping mgr (str_lower (str_strip q)) = Some uid"
    and "find (\<lambda>u. user_id u = uid) (workspace_users mgr) = Some u"
    and "name u = Some n"
  shows "match_user_name mgr q =
           Inr \<lparr>found = True, matched_user = Some u,
                confidence_score = Some (ratio (str_lower q) (str_lower n)),
                original_search = q\<rparr>
       \<and> 0 \<le> ratio (str_lower q) (str_lower n) \<and> ratio (str_lower q) (str_lower n) \<le> 1
       \<and> (str_lower q = str_lower n \<longrightarrow> ratio (str_lower q) (str_lower n) = 1)"
proof -
  have "find_user_by_name mgr q = Some u"
    using assms(1-4) by (simp add: find_user_by_name_def)
  then show ?thesis
    using assms(5) ratio_bounds[of "str_lower q" "str_lower n"] ratio_same[of "str_lower n"]
    by (simp add: match_user_name_def)
qed

theorem exact_hit_confidence_is_ratio_witness:
  "''Dinesh Kumar'' \<noteq> [] \<and> workspace_users (load_manager [u1, u2]) \<noteq> []
   \<and> user_name_mapping (load_manager [u1, u2]) (str_lower (str_strip ''Dinesh Kumar'')) = Some ''u1''
   \<and> find (\<lambda>u. user_id u = ''u1'') (workspace_users (load_manager [u1, u2])) = Some u1
   \<and> name u1 = Some ''Dinesh Kumar''
   \<and> match_user_name (load_manager [u1, u2]) ''Dinesh Kumar'' =
        Inr \<lparr>found = True, matched_user = Some u1, confidence_score = Some 1,
             original_search = ''Dinesh Kumar''\<rparr>"
proof -
  have h: "''Dinesh Kumar'' \<noteq> []" "workspace_users (load_manager [u1, u2]) \<noteq> []"
    "user_name_mapping (load_manager [u1, u2]) (str_lower (str_strip ''Dinesh Kumar'')) = Some ''u1''"
    "find (\<lambda>u. user_id u = ''u1'') (workspace_users (load_manager [u1, u2])) = Some u1"
    "name u1 = Some ''Dinesh Kumar''"
    by code_simp+
  have r: "ratio (str_lower ''Dinesh Kumar'') (str_lower ''Dinesh Kumar'') = 1" by code_simp
  show ?thesis
    using exact_hit_confidence_is_ratio[OF h, THEN conjunct1] h unfolding r by simp
qed

text \<open>
  The claim as stated fails: "Dinesh" is in the index as the first token of
  "Dinesh Kumar", and the confidence reported for this exact hit is 2/3.
\<close>

theorem exact_hit_confidence_counterexample:
  "user_name_mapping (load_manager [u1, u2]) (str_lower (str_strip ''Dinesh'')) = Some ''u1''
   \<and> match_user_name (load_manager [u1, u2]) ''Dinesh'' =
        Inr \<lparr>found = True, matched_user = Some u1, confidence_score = Some (2 / 3),
             original_search = ''Dinesh''\<rparr>
   \<and> match_user_name (load_manager [u1, u2]) ''Dinesh'' \<noteq>
        Inr \<lparr>found = True, matched_user = Some u1, confidence_score = Some 1,
             original_search = ''Dinesh''\<rparr>"
  by code_simp

section \<open>Properties of the paginated fetch\<close>







end
